theory Spec2Isabelle
  imports Main "HOL-Library.Word" "HOL-Library.Sublist"
begin

unbundle bit_operations_syntax

section \<open>The input stream\<close>

text \<open>
  The parser of \<^verbatim>\<open>trellis-conf.c\<close> reads a \<^verbatim>\<open>FILE *\<close> with \<^verbatim>\<open>fscanf\<close> and
  \<^verbatim>\<open>ungetc\<close> only. The stream is the list of characters not yet consumed, together with
  what \<^verbatim>\<open>ferror\<close> reports: \<open>fault\<close> says that the device fails (instead of reporting end of
  file) once \<open>buf\<close> is exhausted, \<open>ferr\<close> is the error indicator, set by the first read
  that runs into such a fault, and \<open>errdesc\<close> is \<^verbatim>\<open>strerror (errno)\<close> for that fault.
\<close>

record stream =
  buf :: string
  fault :: bool
  ferr :: bool
  errdesc :: string

definition EOF :: int where
  "EOF = - 1"

text \<open>\<^verbatim>\<open>isspace\<close> in the C locale, and the scan sets \<^verbatim>\<open>[ \t]\<close> and \<^verbatim>\<open>[^\n]\<close>.\<close>

definition isspace :: "char \<Rightarrow> bool" where
  "isspace c = (c = CHR '' '' \<or> c = CHR 0x09 \<or> c = CHR 0x0A \<or> c = CHR 0x0B
                \<or> c = CHR 0x0C \<or> c = CHR 0x0D)"

definition nonspace :: "char \<Rightarrow> bool" where
  "nonspace c = (\<not> isspace c)"

definition blank :: "char \<Rightarrow> bool" where
  "blank c = (c = CHR '' '' \<or> c = CHR 0x09)"

definition not_nl :: "char \<Rightarrow> bool" where
  "not_nl c = (c \<noteq> CHR 0x0A)"

text \<open>The newline, as a string.\<close>

definition nl :: string where
  "nl = [CHR 0x0A]"

text \<open>
  The longest run of characters of a class: what a \<^verbatim>\<open>%[...]\<close> or \<^verbatim>\<open>%s\<close> directive
  without a width consumes. The character that ends the run is pushed back, so it stays in
  the stream; a run that reaches the end of the data has tried to read there.
\<close>

definition scan_run :: "(char \<Rightarrow> bool) \<Rightarrow> stream \<Rightarrow> string \<times> stream" where
  "scan_run P s =
     (let t = takeWhile P (buf s); r = dropWhile P (buf s)
      in (t, s\<lparr>buf := r, ferr := (ferr s \<or> (fault s \<and> r = []))\<rparr>))"

text \<open>At most one character of a class (a sign, a literal character of the format).\<close>

definition accept :: "(char \<Rightarrow> bool) \<Rightarrow> stream \<Rightarrow> string \<times> stream" where
  "accept P s =
     (case buf s of
        [] \<Rightarrow> ([], s\<lparr>ferr := (ferr s \<or> fault s)\<rparr>)
      | c # cs \<Rightarrow> if P c then ([c], s\<lparr>buf := cs\<rparr>) else ([], s))"

text \<open>White space in a format, and the white space \<^verbatim>\<open>%s\<close>, \<^verbatim>\<open>%u\<close> and \<^verbatim>\<open>%x\<close> skip first.\<close>

definition skip_space :: "stream \<Rightarrow> stream" where
  "skip_space s = snd (scan_run isspace s)"

text \<open>\<^verbatim>\<open>%[...]\<close>: a non-empty run of the scan set; no white space is skipped.\<close>

definition conv_set :: "(char \<Rightarrow> bool) \<Rightarrow> stream \<Rightarrow> string option \<times> stream" where
  "conv_set P s =
     (case scan_run P s of (t, s1) \<Rightarrow> (if t = [] then None else Some t, s1))"

text \<open>\<^verbatim>\<open>%s\<close> (here always \<^verbatim>\<open>%ms\<close>): white space, then a non-empty run of other characters.\<close>

definition conv_s :: "stream \<Rightarrow> string option \<times> stream" where
  "conv_s s = conv_set nonspace (skip_space s)"

text \<open>\<^verbatim>\<open>%15s\<close>: as \<^verbatim>\<open>%s\<close>, but at most \<open>n\<close> characters; after \<open>n\<close> characters nothing
  more is read.\<close>

definition conv_s_width :: "nat \<Rightarrow> stream \<Rightarrow> string option \<times> stream" where
  "conv_s_width n s =
     (let s0 = skip_space s;
          t = takeWhile nonspace (take n (buf s0));
          r = drop (length t) (buf s0)
      in (if t = [] then None else Some t,
          s0\<lparr>buf := r, ferr := (ferr s0 \<or> (fault s0 \<and> r = [] \<and> length t < n))\<rparr>))"

text \<open>
  \<^verbatim>\<open>%u\<close> (base 10) and \<^verbatim>\<open>%x\<close> (base 16) into an \<^verbatim>\<open>unsigned\<close>: white space, an optional
  sign, for base 16 an optional \<^verbatim>\<open>0x\<close>, then digits. The value is the one \<^verbatim>\<open>strtoul\<close> gives on
  a 64-bit \<^verbatim>\<open>unsigned long\<close> (saturating at \<^verbatim>\<open>ULONG_MAX\<close>, negated for a minus sign), stored
  into 32 bits. A leading \<^verbatim>\<open>0\<close> counts as a digit, also when an \<^verbatim>\<open>x\<close> follows it.
\<close>

definition digit_of :: "nat \<Rightarrow> char \<Rightarrow> nat option" where
  "digit_of base c =
     (let n = (of_char c :: nat);
          d = (if 48 \<le> n \<and> n \<le> 57 then n - 48
               else if 97 \<le> n \<and> n \<le> 122 then n - 87
               else if 65 \<le> n \<and> n \<le> 90 then n - 55
               else 36)
      in if d < base then Some d else None)"

definition is_digit :: "nat \<Rightarrow> char \<Rightarrow> bool" where
  "is_digit base c = (digit_of base c \<noteq> None)"

definition digits_value :: "nat \<Rightarrow> string \<Rightarrow> int" where
  "digits_value base ds =
     foldl (\<lambda>a c. a * int base + (case digit_of base c of Some d \<Rightarrow> int d | None \<Rightarrow> 0)) 0 ds"

definition strtoul :: "nat \<Rightarrow> bool \<Rightarrow> string \<Rightarrow> 32 word" where
  "strtoul base neg ds =
     (let n = digits_value base ds;
          v = (if 2 ^ 64 \<le> n then (- 1 :: 64 word)
               else if neg then - of_int n else of_int n)
      in ucast v)"

definition conv_uint :: "nat \<Rightarrow> stream \<Rightarrow> 32 word option \<times> stream" where
  "conv_uint base s =
     (case accept (\<lambda>c. c = CHR ''-'' \<or> c = CHR ''+'') (skip_space s) of (sign, s1) \<Rightarrow>
      case accept (\<lambda>c. c = CHR ''0'') s1 of (zero, s2) \<Rightarrow>
      case (if zero \<noteq> [] \<and> base = 16
            then accept (\<lambda>c. c = CHR ''x'' \<or> c = CHR ''X'') s2 else ([], s2)) of (x, s3) \<Rightarrow>
      case scan_run (is_digit base) s3 of (ds, s4) \<Rightarrow>
        (if zero @ ds = [] then None else Some (strtoul base (sign = ''-'') (zero @ ds)), s4))"

subsection \<open>The format strings of the parser\<close>

text \<open>
  One function for each format the parser passes to \<^verbatim>\<open>fscanf\<close>. Each returns \<open>Some\<close> of the
  values assigned exactly when \<^verbatim>\<open>fscanf\<close> returns the number of its conversions, which is
  what the parser tests; a directive that fails ends the call.
\<close>

definition fscanf_c :: "stream \<Rightarrow> char option \<times> stream" where
  \<comment> \<open>\<^verbatim>\<open>" %c"\<close>\<close>
  "fscanf_c s =
     (let s0 = skip_space s
      in case buf s0 of [] \<Rightarrow> (None, s0) | c # cs \<Rightarrow> (Some c, s0\<lparr>buf := cs\<rparr>))"

definition fscanf_comment :: "stream \<Rightarrow> stream" where
  \<comment> \<open>\<^verbatim>\<open>"#%*[^\n]"\<close>, its result unused\<close>
  "fscanf_comment s =
     (case accept (\<lambda>c. c = CHR ''#'') s of
        ([], s1) \<Rightarrow> s1
      | (_ # _, s1) \<Rightarrow> snd (conv_set not_nl s1))"

definition fscanf_blank_s :: "stream \<Rightarrow> string option \<times> stream" where
  \<comment> \<open>\<^verbatim>\<open>"%*[ \t]%ms"\<close>\<close>
  "fscanf_blank_s s =
     (case conv_set blank s of
        (None, s1) \<Rightarrow> (None, s1)
      | (Some _, s1) \<Rightarrow> conv_s s1)"

definition fscanf_blank_line :: "stream \<Rightarrow> string option \<times> stream" where
  \<comment> \<open>\<^verbatim>\<open>"%*[ \t]%m[^\n]"\<close>\<close>
  "fscanf_blank_line s =
     (case conv_set blank s of
        (None, s1) \<Rightarrow> (None, s1)
      | (Some _, s1) \<Rightarrow> conv_set not_nl s1)"

definition fscanf_blank_s_blank_s :: "stream \<Rightarrow> (string \<times> string) option \<times> stream" where
  \<comment> \<open>\<^verbatim>\<open>"%*[ \t]%ms%*[ \t]%ms"\<close>\<close>
  "fscanf_blank_s_blank_s s =
     (case fscanf_blank_s s of
        (None, s1) \<Rightarrow> (None, s1)
      | (Some a, s1) \<Rightarrow>
          (case fscanf_blank_s s1 of
             (None, s2) \<Rightarrow> (None, s2)
           | (Some b, s2) \<Rightarrow> (Some (a, b), s2)))"

definition fscanf_s15 :: "stream \<Rightarrow> string option \<times> stream" where
  \<comment> \<open>\<^verbatim>\<open>"%15s"\<close>\<close>
  "fscanf_s15 s = conv_s_width 15 s"

definition fscanf_blank_u :: "stream \<Rightarrow> 32 word option \<times> stream" where
  \<comment> \<open>\<^verbatim>\<open>"%*[ \t]%u"\<close>\<close>
  "fscanf_blank_u s =
     (case conv_set blank s of
        (None, s1) \<Rightarrow> (None, s1)
      | (Some _, s1) \<Rightarrow> conv_uint 10 s1)"

definition fscanf_x :: "stream \<Rightarrow> 32 word option \<times> stream" where
  \<comment> \<open>\<^verbatim>\<open>"%x"\<close>\<close>
  "fscanf_x s = conv_uint 16 s"

text \<open>
  \<^verbatim>\<open>ungetc\<close> pushes one character back; given \<^verbatim>\<open>EOF\<close> it does nothing.
\<close>

definition ungetc :: "int \<Rightarrow> stream \<Rightarrow> stream" where
  "ungetc c s = (if c = EOF then s else s\<lparr>buf := char_of (c mod 256) # buf s\<rparr>)"

text \<open>
  A \<^verbatim>\<open>char\<close> read as an \<^verbatim>\<open>int\<close>. Plain \<^verbatim>\<open>char\<close> is signed here (as on x86), so the byte
  \<^verbatim>\<open>0xFF\<close> reads as \<open>-1\<close>, the value of \<^verbatim>\<open>EOF\<close>.
\<close>

definition char_to_int :: "char \<Rightarrow> int" where
  "char_to_int c = (if (of_char c :: int) < 128 then of_char c else of_char c - 256)"


section \<open>Lexical primitives\<close>

definition next_ns :: "stream \<Rightarrow> int \<times> stream" where
  "next_ns inp =
     (case fscanf_c inp of
        (None, inp1) \<Rightarrow> (EOF, inp1)
      | (Some la, inp1) \<Rightarrow> (char_to_int la, ungetc (char_to_int la) inp1))"

lemma scan_run_length:
  "length (fst (scan_run P s)) + length (buf (snd (scan_run P s))) = length (buf s)"
proof -
  have "length (takeWhile P (buf s)) + length (dropWhile P (buf s)) = length (buf s)"
    by (metis length_append takeWhile_dropWhile_id)
  then show ?thesis by (simp add: scan_run_def Let_def)
qed

lemma scan_run_le: "length (buf (snd (scan_run P s))) \<le> length (buf s)"
  using scan_run_length [of P s] by linarith

lemma accept_length:
  "length (fst (accept P s)) + length (buf (snd (accept P s))) = length (buf s)"
  by (simp add: accept_def split: list.splits)

lemma accept_le: "length (buf (snd (accept P s))) \<le> length (buf s)"
  using accept_length [of P s] by linarith

lemma skip_space_le: "length (buf (skip_space s)) \<le> length (buf s)"
  by (simp add: skip_space_def scan_run_le)

lemma conv_set_le: "length (buf (snd (conv_set P s))) \<le> length (buf s)"
  using scan_run_le [of P s] by (simp add: conv_set_def case_prod_unfold)

lemma conv_set_less:
  assumes "fst (conv_set P s) = Some t"
  shows "length (buf (snd (conv_set P s))) < length (buf s)"
proof -
  from assms have "fst (scan_run P s) \<noteq> []"
    by (auto simp: conv_set_def split: prod.splits if_splits)
  then have "0 < length (fst (scan_run P s))" by simp
  with scan_run_length [of P s] have "length (buf (snd (scan_run P s))) < length (buf s)"
    by linarith
  then show ?thesis by (simp add: conv_set_def case_prod_unfold)
qed

lemma conv_s_le: "length (buf (snd (conv_s s))) \<le> length (buf s)"
  unfolding conv_s_def using conv_set_le [of nonspace "skip_space s"] skip_space_le [of s]
  by linarith

lemma conv_s_less:
  "fst (conv_s s) = Some t \<Longrightarrow> length (buf (snd (conv_s s))) < length (buf s)"
  unfolding conv_s_def using conv_set_less [of nonspace "skip_space s" t] skip_space_le [of s]
  by linarith

lemma conv_s_width_le: "length (buf (snd (conv_s_width n s))) \<le> length (buf s)"
  using skip_space_le [of s] by (simp add: conv_s_width_def Let_def)

lemma conv_s_width_less:
  assumes "fst (conv_s_width n s) = Some t"
  shows "length (buf (snd (conv_s_width n s))) < length (buf s)"
proof -
  let ?b = "buf (skip_space s)"
  from assms have ne: "takeWhile nonspace (take n ?b) \<noteq> []"
    by (auto simp: conv_s_width_def Let_def split: if_splits)
  then have "?b \<noteq> []" by auto
  with ne have "length ?b - length (takeWhile nonspace (take n ?b)) < length ?b"
    by simp
  with skip_space_le [of s] show ?thesis
    by (simp add: conv_s_width_def Let_def)
qed

lemma conv_uint_length:
  "length (buf (snd (conv_uint base s))) + (case fst (conv_uint base s) of None \<Rightarrow> 0 | Some _ \<Rightarrow> 1)
     \<le> length (buf s)"
proof -
  obtain sg s1 where a1: "accept (\<lambda>c. c = CHR ''-'' \<or> c = CHR ''+'') (skip_space s) = (sg, s1)"
    by (cases "accept (\<lambda>c. c = CHR ''-'' \<or> c = CHR ''+'') (skip_space s)")
  obtain z s2 where a2: "accept (\<lambda>c. c = CHR ''0'') s1 = (z, s2)"
    by (cases "accept (\<lambda>c. c = CHR ''0'') s1")
  obtain x s3 where a3: "(if z \<noteq> [] \<and> base = 16
            then accept (\<lambda>c. c = CHR ''x'' \<or> c = CHR ''X'') s2 else ([], s2)) = (x, s3)"
    by (cases "(if z \<noteq> [] \<and> base = 16
            then accept (\<lambda>c. c = CHR ''x'' \<or> c = CHR ''X'') s2 else ([], s2))")
  obtain ds s4 where a4: "scan_run (is_digit base) s3 = (ds, s4)"
    by (cases "scan_run (is_digit base) s3")
  have l1: "length (buf s1) \<le> length (buf s)"
    using accept_le [of _ "skip_space s"] skip_space_le [of s] a1
    by (metis le_trans snd_conv)
  have l2: "length z + length (buf s2) = length (buf s1)"
    using accept_length [of "\<lambda>c. c = CHR ''0''" s1] a2 by simp
  have l3: "length (buf s3) \<le> length (buf s2)"
    using a3 accept_le [of "\<lambda>c. c = CHR ''x'' \<or> c = CHR ''X''" s2]
    by (auto split: if_splits)
  have l4: "length ds + length (buf s4) = length (buf s3)"
    using scan_run_length [of "is_digit base" s3] a4 by simp
  have r: "conv_uint base s =
    (if z @ ds = [] then None else Some (strtoul base (sg = ''-'') (z @ ds)), s4)"
    by (simp add: conv_uint_def a1 a2 a3 a4)
  have tot: "length (buf s4) + (length z + length ds) \<le> length (buf s)"
    using l1 l2 l3 l4 by linarith
  show ?thesis
  proof (cases "z @ ds = []")
    case True
    with r tot show ?thesis by simp
  next
    case False
    then have "0 < length z + length ds" by auto
    with tot have "length (buf s4) + 1 \<le> length (buf s)" by linarith
    with False r show ?thesis by simp
  qed
qed

lemma conv_uint_le: "length (buf (snd (conv_uint base s))) \<le> length (buf s)"
  using conv_uint_length [of base s] by linarith

lemma conv_uint_less:
  "fst (conv_uint base s) = Some v \<Longrightarrow> length (buf (snd (conv_uint base s))) < length (buf s)"
  using conv_uint_length [of base s] by simp

lemma fscanf_blank_s_le: "length (buf (snd (fscanf_blank_s s))) \<le> length (buf s)"
  using conv_set_le [of blank s] conv_s_le [of "snd (conv_set blank s)"]
  by (auto simp: fscanf_blank_s_def split: prod.splits option.splits)

lemma fscanf_blank_s_less:
  "fst (fscanf_blank_s s) = Some t \<Longrightarrow> length (buf (snd (fscanf_blank_s s))) < length (buf s)"
  using conv_set_le [of blank s] conv_s_less [of "snd (conv_set blank s)" t]
  by (auto simp: fscanf_blank_s_def split: prod.splits option.splits)

lemma fscanf_blank_line_le: "length (buf (snd (fscanf_blank_line s))) \<le> length (buf s)"
  using conv_set_le [of blank s] conv_set_le [of not_nl "snd (conv_set blank s)"]
  by (auto simp: fscanf_blank_line_def split: prod.splits option.splits)

lemma fscanf_blank_s_blank_s_le:
  "length (buf (snd (fscanf_blank_s_blank_s s))) \<le> length (buf s)"
  using fscanf_blank_s_le [of s] fscanf_blank_s_le [of "snd (fscanf_blank_s s)"]
  by (auto simp: fscanf_blank_s_blank_s_def split: prod.splits option.splits)

lemma fscanf_s15_le: "length (buf (snd (fscanf_s15 s))) \<le> length (buf s)"
  by (simp add: fscanf_s15_def conv_s_width_le)

lemma fscanf_s15_less:
  "fst (fscanf_s15 s) = Some t \<Longrightarrow> length (buf (snd (fscanf_s15 s))) < length (buf s)"
  by (simp add: fscanf_s15_def conv_s_width_less)

lemma fscanf_blank_u_le: "length (buf (snd (fscanf_blank_u s))) \<le> length (buf s)"
  using conv_set_le [of blank s] conv_uint_le [of 10 "snd (conv_set blank s)"]
  by (auto simp: fscanf_blank_u_def split: prod.splits option.splits)

lemma fscanf_x_le: "length (buf (snd (fscanf_x s))) \<le> length (buf s)"
  by (simp add: fscanf_x_def conv_uint_le)

lemma fscanf_x_less:
  "fst (fscanf_x s) = Some v \<Longrightarrow> length (buf (snd (fscanf_x s))) < length (buf s)"
  by (simp add: fscanf_x_def conv_uint_less)

text \<open>What \<open>next_ns\<close> leaves: the stream after the white space, with the character it
  returns still in it (the byte \<^verbatim>\<open>0xFF\<close> apart, which \<^verbatim>\<open>ungetc\<close> refuses as \<^verbatim>\<open>EOF\<close>).\<close>

lemma of_char_int_range: "0 \<le> (of_char c :: int) \<and> (of_char c :: int) < 256"
proof -
  have "(of_char c :: int) mod 256 = of_char c" by simp
  then show ?thesis by linarith
qed

lemma char_of_char_to_int: "char_of (char_to_int c) = c"
proof (cases "(of_char c :: int) < 128")
  case True
  then show ?thesis by (simp add: char_to_int_def)
next
  case False
  have "char_of ((of_char c :: int) - 256) = (char_of (((of_char c :: int) - 256) mod 256) :: char)"
    by (simp only: char_of_mod_256)
  also have "((of_char c :: int) - 256) mod 256 = of_char c mod 256"
    by algebra
  also have "char_of ((of_char c :: int) mod 256) = c"
    by simp
  finally show ?thesis using False by (simp add: char_to_int_def)
qed

lemma char_to_int_small:
  assumes "(of_char d :: int) < 128"
  shows "char_to_int c = of_char d \<longleftrightarrow> c = d"
proof
  assume e: "char_to_int c = of_char d"
  have "(of_char c :: int) = of_char d"
  proof (cases "(of_char c :: int) < 128")
    case True
    with e show ?thesis by (simp add: char_to_int_def)
  next
    case False
    with e have "(of_char c :: int) - 256 = of_char d" by (simp add: char_to_int_def)
    with of_char_int_range [of d] of_char_int_range [of c] show ?thesis by linarith
  qed
  then show "c = d" by simp
next
  assume "c = d"
  with assms show "char_to_int c = of_char d" by (simp add: char_to_int_def)
qed

lemma char_to_int_hash: "char_to_int c = 35 \<longleftrightarrow> c = CHR ''#''"
  using char_to_int_small [of "CHR ''#''" c] by simp

lemma char_to_int_dot: "char_to_int c = 46 \<longleftrightarrow> c = CHR ''.''"
  using char_to_int_small [of "CHR ''.''" c] by simp

lemma char_to_int_EOF: "char_to_int c = EOF \<longleftrightarrow> c = CHR 0xFF"
proof
  assume e: "char_to_int c = EOF"
  have "(of_char c :: int) = of_char (CHR 0xFF)"
  proof (cases "(of_char c :: int) < 128")
    case True
    with e of_char_int_range [of c] show ?thesis by (simp add: char_to_int_def EOF_def)
  next
    case False
    with e show ?thesis by (simp add: char_to_int_def EOF_def)
  qed
  then show "c = CHR 0xFF" by (simp only: of_char_eq_iff)
next
  assume "c = CHR 0xFF"
  then show "char_to_int c = EOF" by (simp add: char_to_int_def EOF_def)
qed
lemma stream_buf_same: "buf s = b \<Longrightarrow> s\<lparr>buf := b\<rparr> = s"
  by (cases s) simp

lemma next_ns_empty:
  "buf (skip_space inp) = [] \<Longrightarrow> next_ns inp = (EOF, skip_space inp)"
  by (simp add: next_ns_def fscanf_c_def)

lemma next_ns_char:
  assumes "buf (skip_space inp) = c # cs"
  shows "next_ns inp = (char_to_int c,
           if c = CHR 0xFF then (skip_space inp)\<lparr>buf := cs\<rparr> else skip_space inp)"
  using assms stream_buf_same [OF assms]
  by (simp add: next_ns_def fscanf_c_def ungetc_def char_of_char_to_int char_to_int_EOF)

lemma next_ns_le: "length (buf (snd (next_ns inp))) \<le> length (buf inp)"
proof (cases "buf (skip_space inp)")
  case Nil
  then show ?thesis using skip_space_le [of inp] by (simp add: next_ns_empty)
next
  case (Cons c cs)
  then show ?thesis using skip_space_le [of inp] by (simp add: next_ns_char)
qed

lemma next_ns_hash:
  assumes "fst (next_ns inp) = of_char CHR ''#''"
  shows "length (buf (fscanf_comment (snd (next_ns inp)))) < length (buf inp)"
proof (cases "buf (skip_space inp)")
  case Nil
  with assms show ?thesis by (simp add: next_ns_empty EOF_def)
next
  case (Cons c cs)
  with assms have "char_to_int c = 35" by (simp add: next_ns_char)
  then have c: "c = CHR ''#''" by (simp add: char_to_int_hash)
  with Cons have n: "snd (next_ns inp) = skip_space inp"
    and b: "buf (skip_space inp) = CHR ''#'' # cs"
    by (simp_all add: next_ns_char)
  have "length (buf (fscanf_comment (skip_space inp))) \<le> length cs"
    using conv_set_le [of not_nl "(skip_space inp)\<lparr>buf := cs\<rparr>"] b
    by (simp add: fscanf_comment_def accept_def)
  with n b skip_space_le [of inp] show ?thesis by simp
qed

function next_entry :: "stream \<Rightarrow> int \<times> stream" where
  "next_entry inp =
     (case next_ns inp of (la, inp1) \<Rightarrow>
        if la = of_char CHR ''#'' then next_entry (fscanf_comment inp1)
        else (if la \<noteq> EOF then 1 else 0, inp1))"
  by pat_completeness auto
termination
proof (relation "measure (\<lambda>inp. length (buf inp))")
  show "wf (measure (\<lambda>inp. length (buf inp)))" by simp
next
  fix inp :: stream and la inp1
  assume "(la, inp1) = next_ns inp" "la = of_char CHR ''#''"
  then have "fst (next_ns inp) = of_char CHR ''#''" "snd (next_ns inp) = inp1"
    by (metis fst_conv, metis snd_conv)
  then show "(fscanf_comment inp1, inp) \<in> measure (\<lambda>inp. length (buf inp))"
    using next_ns_hash [of inp] by simp
qed

declare next_entry.simps [simp del]

definition next_record :: "stream \<Rightarrow> int \<times> stream" where
  "next_record inp =
     (case next_ns inp of (la, inp1) \<Rightarrow>
        (if la \<noteq> EOF \<and> la \<noteq> of_char CHR ''.'' then 1 else 0, inp1))"

text \<open>C strings end at the first NUL; \<^verbatim>\<open>strcmp\<close> and \<^verbatim>\<open>%s\<close> in a format see no further.\<close>

definition cstr :: "string \<Rightarrow> string" where
  "cstr t = takeWhile (\<lambda>c. c \<noteq> CHR 0x00) t"

definition match :: "string \<Rightarrow> string \<Rightarrow> bool" where
  "match a b = (cstr a = cstr b)"


section \<open>The parser context and the action interface\<close>

text \<open>
  Modelled from the spec: \<^verbatim>\<open>struct config\<close> and its table of callbacks, which are declared
  in \<^verbatim>\<open>trellis-conf.h\<close>, a header that is not among the sources. The parser uses the fields
  \<^verbatim>\<open>action\<close>, \<^verbatim>\<open>cookie\<close> and \<^verbatim>\<open>error\<close>, and calls the eleven callbacks with the arguments
  given below. A callback gets the cookie and the parsed values and returns an \<^verbatim>\<open>int\<close>,
  zero for failure; what it does to the object behind the cookie is the new cookie it
  returns here. The size of the array \<^verbatim>\<open>error\<close> is the parameter \<open>error_size\<close>.

  \<open>calls\<close> is not a field of the C structure: it records every call the parser makes
  through the action interface, with the value the callback returned, in order. The
  parser never reads it.
\<close>

datatype event =
    On_device string
  | On_comment string
  | On_sysconfig string string
  | On_tile string
  | On_arc string string
  | On_word string string
  | On_enum string string
  | On_unknown string
  | On_bram "32 word"
  | On_data "32 word" "64 word" "32 word"
  | On_commit

record 'c config_action =
  on_device :: "'c \<Rightarrow> string \<Rightarrow> int \<times> 'c"
  on_comment :: "'c \<Rightarrow> string \<Rightarrow> int \<times> 'c"
  on_sysconfig :: "'c \<Rightarrow> string \<Rightarrow> string \<Rightarrow> int \<times> 'c"
  on_tile :: "'c \<Rightarrow> string \<Rightarrow> int \<times> 'c"
  on_arc :: "'c \<Rightarrow> string \<Rightarrow> string \<Rightarrow> int \<times> 'c"
  on_word :: "'c \<Rightarrow> string \<Rightarrow> string \<Rightarrow> int \<times> 'c"
  on_enum :: "'c \<Rightarrow> string \<Rightarrow> string \<Rightarrow> int \<times> 'c"
  on_unknown :: "'c \<Rightarrow> string \<Rightarrow> int \<times> 'c"
  on_bram :: "'c \<Rightarrow> 32 word \<Rightarrow> int \<times> 'c"
  on_data :: "'c \<Rightarrow> 32 word \<Rightarrow> 64 word \<Rightarrow> 32 word \<Rightarrow> int \<times> 'c"
  on_commit :: "'c \<Rightarrow> int \<times> 'c"

record 'c config =
  action :: "'c config_action"
  cookie :: 'c
  error :: string
  error_size :: nat
  calls :: "(event \<times> int) list"

fun invoke :: "'c config_action \<Rightarrow> event \<Rightarrow> 'c \<Rightarrow> int \<times> 'c" where
  "invoke a (On_device name) c = on_device a c name"
| "invoke a (On_comment text) c = on_comment a c text"
| "invoke a (On_sysconfig name val) c = on_sysconfig a c name val"
| "invoke a (On_tile name) c = on_tile a c name"
| "invoke a (On_arc sink source) c = on_arc a c sink source"
| "invoke a (On_word name val) c = on_word a c name val"
| "invoke a (On_enum name val) c = on_enum a c name val"
| "invoke a (On_unknown val) c = on_unknown a c val"
| "invoke a (On_bram index) c = on_bram a c index"
| "invoke a (On_data index i val) c = on_data a c index i val"
| "invoke a On_commit c = on_commit a c"

text \<open>\<^verbatim>\<open>o->action->on_...  (o->cookie, ...)\<close>: the call, its result, and its entry in \<open>calls\<close>.\<close>

definition call :: "'c config \<Rightarrow> event \<Rightarrow> int \<times> 'c config" where
  "call cf ev =
     (case invoke (action cf) ev (cookie cf) of
        (ok, c) \<Rightarrow> (ok, cf\<lparr>cookie := c, calls := calls cf @ [(ev, ok)]\<rparr>))"

text \<open>
  \<^verbatim>\<open>conf_error\<close>: \<^verbatim>\<open>vsnprintf\<close> into \<^verbatim>\<open>o->error\<close>, which keeps at most
  \<^verbatim>\<open>sizeof (o->error) - 1\<close> characters of the message; the result is always 0. The argument
  is the message after formatting.
\<close>

definition conf_error :: "'c config \<Rightarrow> string \<Rightarrow> int \<times> 'c config" where
  "conf_error cf msg =
     (0, if error_size cf = 0 then cf else cf\<lparr>error := take (error_size cf - 1) msg\<rparr>)"

definition quoted :: "string \<Rightarrow> string" where
  \<comment> \<open>\<^verbatim>\<open>'%s'\<close> in a format\<close>
  "quoted t = [CHR 0x27] @ cstr t @ [CHR 0x27]"

text \<open>A reader takes the context and the stream and returns its \<^verbatim>\<open>int\<close> with both.\<close>

type_synonym 'c result = "int \<times> 'c config \<times> stream"

definition at :: "int \<times> 'c config \<Rightarrow> stream \<Rightarrow> 'c result" where
  "at r inp = (fst r, snd r, inp)"

section \<open>Leaf readers\<close>

definition read_device :: "'c config \<Rightarrow> stream \<Rightarrow> 'c result" where
  "read_device cf inp =
     (case fscanf_blank_s inp of
        (None, inp1) \<Rightarrow> at (conf_error cf ''device name required'') inp1
      | (Some name, inp1) \<Rightarrow> at (call cf (On_device (cstr name))) inp1)"

definition read_comment :: "'c config \<Rightarrow> stream \<Rightarrow> 'c result" where
  "read_comment cf inp =
     (case fscanf_blank_line inp of
        (None, inp1) \<Rightarrow> at (conf_error cf ''empty comment'') inp1
      | (Some val, inp1) \<Rightarrow> at (call cf (On_comment (cstr val))) inp1)"

definition read_sysconfig :: "'c config \<Rightarrow> stream \<Rightarrow> 'c result" where
  "read_sysconfig cf inp =
     (case fscanf_blank_s_blank_s inp of
        (None, inp1) \<Rightarrow> at (conf_error cf ''sysconfig requres name and value'') inp1
      | (Some (name, val), inp1) \<Rightarrow> at (call cf (On_sysconfig (cstr name) (cstr val))) inp1)"

definition read_arc :: "'c config \<Rightarrow> stream \<Rightarrow> 'c result" where
  "read_arc cf inp =
     (case fscanf_blank_s_blank_s inp of
        (None, inp1) \<Rightarrow> at (conf_error cf ''arc requires sink and source'') inp1
      | (Some (sink, source), inp1) \<Rightarrow> at (call cf (On_arc (cstr sink) (cstr source))) inp1)"

definition read_word :: "'c config \<Rightarrow> stream \<Rightarrow> 'c result" where
  "read_word cf inp =
     (case fscanf_blank_s_blank_s inp of
        (None, inp1) \<Rightarrow> at (conf_error cf ''word requires name and value'') inp1
      | (Some (name, val), inp1) \<Rightarrow> at (call cf (On_word (cstr name) (cstr val))) inp1)"

definition read_enum :: "'c config \<Rightarrow> stream \<Rightarrow> 'c result" where
  "read_enum cf inp =
     (case fscanf_blank_s_blank_s inp of
        (None, inp1) \<Rightarrow> at (conf_error cf ''enum requires name and value'') inp1
      | (Some (name, val), inp1) \<Rightarrow> at (call cf (On_enum (cstr name) (cstr val))) inp1)"

definition read_unknown :: "'c config \<Rightarrow> stream \<Rightarrow> 'c result" where
  "read_unknown cf inp =
     (case fscanf_blank_s inp of
        (None, inp1) \<Rightarrow> at (conf_error cf ''unknown requires value'') inp1
      | (Some val, inp1) \<Rightarrow> at (call cf (On_unknown (cstr val))) inp1)"

lemma at_stream [simp]: "snd (snd (at r inp)) = inp"
  by (simp add: at_def)

lemma read_device_le: "length (buf (snd (snd (read_device cf inp)))) \<le> length (buf inp)"
  using fscanf_blank_s_le [of inp]
  by (auto simp: read_device_def split: prod.splits option.splits)

lemma read_comment_le: "length (buf (snd (snd (read_comment cf inp)))) \<le> length (buf inp)"
  using fscanf_blank_line_le [of inp]
  by (auto simp: read_comment_def split: prod.splits option.splits)

lemma read_sysconfig_le: "length (buf (snd (snd (read_sysconfig cf inp)))) \<le> length (buf inp)"
  using fscanf_blank_s_blank_s_le [of inp]
  by (auto simp: read_sysconfig_def split: prod.splits option.splits)

lemma read_arc_le: "length (buf (snd (snd (read_arc cf inp)))) \<le> length (buf inp)"
  using fscanf_blank_s_blank_s_le [of inp]
  by (auto simp: read_arc_def split: prod.splits option.splits)

lemma read_word_le: "length (buf (snd (snd (read_word cf inp)))) \<le> length (buf inp)"
  using fscanf_blank_s_blank_s_le [of inp]
  by (auto simp: read_word_def split: prod.splits option.splits)

lemma read_enum_le: "length (buf (snd (snd (read_enum cf inp)))) \<le> length (buf inp)"
  using fscanf_blank_s_blank_s_le [of inp]
  by (auto simp: read_enum_def split: prod.splits option.splits)

lemma read_unknown_le: "length (buf (snd (snd (read_unknown cf inp)))) \<le> length (buf inp)"
  using fscanf_blank_s_le [of inp]
  by (auto simp: read_unknown_def split: prod.splits option.splits)


section \<open>Composite readers\<close>

text \<open>
  Each loop of the parser is a recursive function that stands for the C function from the
  head of the loop to its \<^verbatim>\<open>return\<close>: it evaluates the condition left to right as \<^verbatim>\<open>&&\<close>
  does, runs the body and starts again, and when the condition fails it does what follows
  the loop. Every recursive call is made on a shorter input.
\<close>

text \<open>The body of the loop of \<^verbatim>\<open>read_tile_conf\<close>: the dispatch on the keyword just read.\<close>

definition tile_record :: "string \<Rightarrow> 'c config \<Rightarrow> stream \<Rightarrow> 'c result" where
  "tile_record type cf inp =
     (if match type ''arc:'' then read_arc cf inp
      else if match type ''word:'' then read_word cf inp
      else if match type ''enum:'' then read_enum cf inp
      else if match type ''unknown:'' then read_unknown cf inp
      else at (conf_error cf (''unknown tile record type '' @ quoted type)) inp)"

lemma tile_record_le:
  "length (buf (snd (snd (tile_record type cf inp)))) \<le> length (buf inp)"
  by (simp add: tile_record_def read_arc_le read_word_le read_enum_le read_unknown_le)

lemma next_record_le: "length (buf (snd (next_record inp))) \<le> length (buf inp)"
  using next_ns_le [of inp] by (simp add: next_record_def case_prod_unfold)

text \<open>What follows the loops of \<^verbatim>\<open>read_tile_conf\<close> and \<^verbatim>\<open>read_bram\<close>:
  \<^verbatim>\<open>return ok ? o->action->on_commit (o->cookie): 0;\<close>\<close>

definition commit :: "int \<Rightarrow> 'c config \<Rightarrow> stream \<Rightarrow> 'c result" where
  "commit ok cf inp = (if ok \<noteq> 0 then at (call cf On_commit) inp else (0, cf, inp))"

function read_tile_conf_while :: "int \<Rightarrow> 'c config \<Rightarrow> stream \<Rightarrow> 'c result" where
  "read_tile_conf_while ok cf inp =
     (if ok = 0 then commit ok cf inp
      else case next_record inp of (nr, inp1) \<Rightarrow>
        if nr = 0 then commit ok cf inp1
        else (case fscanf_s15 inp1 of
                (None, inp2) \<Rightarrow> commit ok cf inp2
              | (Some type, inp2) \<Rightarrow>
                  (case tile_record type cf inp2 of
                     (ok', cf', inp3) \<Rightarrow> read_tile_conf_while ok' cf' inp3)))"
  by pat_completeness auto
termination
proof (relation "measure (\<lambda>(ok, cf, inp). length (buf inp))")
  show "wf (measure (\<lambda>(ok :: int, cf :: 'c config, inp). length (buf inp)))" by simp
next
  fix ok :: int and cf :: "'c config" and inp nr inp1 x inp2 type ok' y cf' inp3
  assume "(nr, inp1) = next_record inp" "(x, inp2) = fscanf_s15 inp1" "x = Some type"
    "(ok', y) = tile_record type cf inp2" "(cf', inp3) = y"
  then have a: "snd (next_record inp) = inp1" and b: "fst (fscanf_s15 inp1) = Some type"
    and c: "snd (fscanf_s15 inp1) = inp2" and d: "snd (snd (tile_record type cf inp2)) = inp3"
    by (metis snd_conv, metis fst_conv, metis snd_conv, metis snd_conv)
  have "length (buf inp3) \<le> length (buf inp2)" using tile_record_le [of type cf inp2] d by simp
  moreover have "length (buf inp2) < length (buf inp1)" using fscanf_s15_less [OF b] c by simp
  moreover have "length (buf inp1) \<le> length (buf inp)" using next_record_le [of inp] a by simp
  ultimately show "((ok', cf', inp3), (ok, cf, inp)) \<in> measure (\<lambda>(ok, cf, inp). length (buf inp))"
    by simp
qed

declare read_tile_conf_while.simps [simp del]

definition read_tile_conf :: "'c config \<Rightarrow> stream \<Rightarrow> 'c result" where
  "read_tile_conf cf inp = read_tile_conf_while 1 cf inp"

definition read_tile :: "'c config \<Rightarrow> stream \<Rightarrow> 'c result" where
  "read_tile cf inp =
     (case fscanf_blank_s inp of
        (None, inp1) \<Rightarrow> at (conf_error cf ''tile name required'') inp1
      | (Some name, inp1) \<Rightarrow>
          (case call cf (On_tile (cstr name)) of
             (ok, cf1) \<Rightarrow> if ok \<noteq> 0 then read_tile_conf cf1 inp1 else (0, cf1, inp1)))"

text \<open>\<^verbatim>\<open>read_tile_group\<close> from the loop that reads the further tile names.\<close>

function read_tile_group_while :: "int \<Rightarrow> 'c config \<Rightarrow> stream \<Rightarrow> 'c result" where
  "read_tile_group_while ok cf inp =
     (if ok = 0 then (0, cf, inp)
      else case fscanf_blank_s inp of
             (None, inp1) \<Rightarrow> read_tile_conf cf inp1
           | (Some name, inp1) \<Rightarrow>
               (case call cf (On_tile (cstr name)) of
                  (ok', cf') \<Rightarrow> read_tile_group_while ok' cf' inp1))"
  by pat_completeness auto
termination
proof (relation "measure (\<lambda>(ok, cf, inp). length (buf inp))")
  show "wf (measure (\<lambda>(ok :: int, cf :: 'c config, inp). length (buf inp)))" by simp
next
  fix ok :: int and cf :: "'c config" and inp x inp1 name ok' cf'
  assume "(x, inp1) = fscanf_blank_s inp" "x = Some name"
  then have "fst (fscanf_blank_s inp) = Some name" "snd (fscanf_blank_s inp) = inp1"
    by (metis fst_conv, metis snd_conv)
  then show "((ok', cf', inp1), (ok, cf, inp)) \<in> measure (\<lambda>(ok, cf, inp). length (buf inp))"
    using fscanf_blank_s_less [of inp name] by simp
qed

declare read_tile_group_while.simps [simp del]

definition read_tile_group :: "'c config \<Rightarrow> stream \<Rightarrow> 'c result" where
  "read_tile_group cf inp =
     (case fscanf_blank_s inp of
        (None, inp1) \<Rightarrow> at (conf_error cf ''tile name required'') inp1
      | (Some name, inp1) \<Rightarrow>
          (case call cf (On_tile (cstr name)) of
             (ok, cf1) \<Rightarrow> read_tile_group_while ok cf1 inp1))"

text \<open>
  \<^verbatim>\<open>read_bram\<close> from the head of its \<^verbatim>\<open>for\<close> loop: the loop returns from the function when
  a value cannot be read. The counter \<open>i\<close> is a \<^verbatim>\<open>size_t\<close>.
\<close>

function read_bram_for :: "32 word \<Rightarrow> 64 word \<Rightarrow> int \<Rightarrow> 'c config \<Rightarrow> stream \<Rightarrow> 'c result" where
  "read_bram_for index i ok cf inp =
     (if ok = 0 then commit ok cf inp
      else case next_record inp of (nr, inp1) \<Rightarrow>
        if nr = 0 then commit ok cf inp1
        else (case fscanf_x inp1 of
                (None, inp2) \<Rightarrow> at (conf_error cf ''hex bram value required'') inp2
              | (Some val, inp2) \<Rightarrow>
                  (case call cf (On_data index i val) of
                     (ok', cf') \<Rightarrow> read_bram_for index (i + 1) ok' cf' inp2)))"
  by pat_completeness auto
termination
proof (relation "measure (\<lambda>(index, i, ok, cf, inp). length (buf inp))")
  show "wf (measure (\<lambda>(index :: 32 word, i :: 64 word, ok :: int, cf :: 'c config, inp).
    length (buf inp)))" by simp
next
  fix index :: "32 word" and i :: "64 word" and ok :: int and cf :: "'c config"
    and inp nr inp1 x inp2 v ok' cf'
  assume "(nr, inp1) = next_record inp" "(x, inp2) = fscanf_x inp1" "x = Some v"
  then have a: "snd (next_record inp) = inp1" and b: "fst (fscanf_x inp1) = Some v"
    and c: "snd (fscanf_x inp1) = inp2"
    by (metis snd_conv, metis fst_conv, metis snd_conv)
  have "length (buf inp2) < length (buf inp1)" using fscanf_x_less [OF b] c by simp
  moreover have "length (buf inp1) \<le> length (buf inp)" using next_record_le [of inp] a by simp
  ultimately show "((index, i + 1, ok', cf', inp2), (index, i, ok, cf, inp))
    \<in> measure (\<lambda>(index, i, ok, cf, inp). length (buf inp))"
    by simp
qed

declare read_bram_for.simps [simp del]

definition read_bram :: "'c config \<Rightarrow> stream \<Rightarrow> 'c result" where
  "read_bram cf inp =
     (case fscanf_blank_u inp of
        (None, inp1) \<Rightarrow> at (conf_error cf ''bram index required'') inp1
      | (Some index, inp1) \<Rightarrow>
          (case call cf (On_bram index) of
             (ok, cf1) \<Rightarrow> read_bram_for index 0 ok cf1 inp1))"

text \<open>No reader puts characters into the stream: each leaves at most what it found.\<close>

lemma commit_le: "length (buf (snd (snd (commit ok cf inp)))) \<le> length (buf inp)"
  by (simp add: commit_def)

lemma read_tile_conf_while_le:
  "length (buf (snd (snd (read_tile_conf_while ok cf inp)))) \<le> length (buf inp)"
proof (induction ok cf inp rule: read_tile_conf_while.induct)
  case (1 ok cf inp)
  obtain nr inp1 where nr: "next_record inp = (nr, inp1)" by (cases "next_record inp")
  obtain x inp2 where x: "fscanf_s15 inp1 = (x, inp2)" by (cases "fscanf_s15 inp1")
  have l1: "length (buf inp1) \<le> length (buf inp)" using next_record_le [of inp] nr by simp
  have l2: "length (buf inp2) \<le> length (buf inp1)" using fscanf_s15_le [of inp1] x by simp
  show ?case
  proof (cases "ok \<noteq> 0 \<and> nr \<noteq> 0 \<and> x \<noteq> None")
    case False
    then show ?thesis using nr x l1 l2
      by (subst read_tile_conf_while.simps) (auto simp: commit_def)
  next
    case True
    then obtain type where t: "x = Some type" by auto
    obtain ok' cf' inp3 where r: "tile_record type cf inp2 = (ok', cf', inp3)"
      by (cases "tile_record type cf inp2")
    have l3: "length (buf inp3) \<le> length (buf inp2)"
      using tile_record_le [of type cf inp2] r by simp
    have "length (buf (snd (snd (read_tile_conf_while ok' cf' inp3)))) \<le> length (buf inp3)"
      using True "1.IH" [OF _ nr [symmetric] _ x [symmetric] t r [symmetric] refl]
      by simp
    with l1 l2 l3 True nr x t r show ?thesis
      by (subst read_tile_conf_while.simps) simp
  qed
qed

lemma read_tile_conf_le:
  "length (buf (snd (snd (read_tile_conf cf inp)))) \<le> length (buf inp)"
  by (simp add: read_tile_conf_def read_tile_conf_while_le)

lemma read_tile_le: "length (buf (snd (snd (read_tile cf inp)))) \<le> length (buf inp)"
proof -
  obtain x inp1 where x: "fscanf_blank_s inp = (x, inp1)" by (cases "fscanf_blank_s inp")
  have l: "length (buf inp1) \<le> length (buf inp)" using fscanf_blank_s_le [of inp] x by simp
  show ?thesis
  proof (cases x)
    case None
    with x l show ?thesis by (simp add: read_tile_def)
  next
    case (Some name)
    obtain ok cf1 where c: "call cf (On_tile (cstr name)) = (ok, cf1)"
      by (cases "call cf (On_tile (cstr name))")
    show ?thesis using x Some c l read_tile_conf_le [of cf1 inp1]
      by (simp add: read_tile_def)
  qed
qed

lemma read_tile_group_while_le:
  "length (buf (snd (snd (read_tile_group_while ok cf inp)))) \<le> length (buf inp)"
proof (induction ok cf inp rule: read_tile_group_while.induct)
  case (1 ok cf inp)
  obtain x inp1 where x: "fscanf_blank_s inp = (x, inp1)" by (cases "fscanf_blank_s inp")
  have l1: "length (buf inp1) \<le> length (buf inp)" using fscanf_blank_s_le [of inp] x by simp
  show ?case
  proof (cases "ok \<noteq> 0 \<and> x \<noteq> None")
    case False
    then show ?thesis using x l1 read_tile_conf_le [of cf inp1]
      by (subst read_tile_group_while.simps) auto
  next
    case True
    then obtain name where t: "x = Some name" by auto
    obtain ok' cf' where r: "call cf (On_tile (cstr name)) = (ok', cf')"
      by (cases "call cf (On_tile (cstr name))")
    have "length (buf (snd (snd (read_tile_group_while ok' cf' inp1)))) \<le> length (buf inp1)"
      using True "1.IH" [OF _ x [symmetric] t r [symmetric]]
      by simp
    with l1 True x t r show ?thesis
      by (subst read_tile_group_while.simps) simp
  qed
qed

lemma read_tile_group_le:
  "length (buf (snd (snd (read_tile_group cf inp)))) \<le> length (buf inp)"
proof -
  obtain x inp1 where x: "fscanf_blank_s inp = (x, inp1)" by (cases "fscanf_blank_s inp")
  have l: "length (buf inp1) \<le> length (buf inp)" using fscanf_blank_s_le [of inp] x by simp
  show ?thesis
  proof (cases x)
    case None
    with x l show ?thesis by (simp add: read_tile_group_def)
  next
    case (Some name)
    obtain ok cf1 where c: "call cf (On_tile (cstr name)) = (ok, cf1)"
      by (cases "call cf (On_tile (cstr name))")
    show ?thesis using x Some c l read_tile_group_while_le [of ok cf1 inp1]
      by (simp add: read_tile_group_def)
  qed
qed

lemma read_bram_for_le:
  "length (buf (snd (snd (read_bram_for index i ok cf inp)))) \<le> length (buf inp)"
proof (induction index i ok cf inp rule: read_bram_for.induct)
  case (1 index i ok cf inp)
  obtain nr inp1 where nr: "next_record inp = (nr, inp1)" by (cases "next_record inp")
  obtain x inp2 where x: "fscanf_x inp1 = (x, inp2)" by (cases "fscanf_x inp1")
  have l1: "length (buf inp1) \<le> length (buf inp)" using next_record_le [of inp] nr by simp
  have l2: "length (buf inp2) \<le> length (buf inp1)" using fscanf_x_le [of inp1] x by simp
  show ?case
  proof (cases "ok \<noteq> 0 \<and> nr \<noteq> 0 \<and> x \<noteq> None")
    case False
    then show ?thesis using nr x l1 l2
      by (subst read_bram_for.simps) (auto simp: commit_def)
  next
    case True
    then obtain v where t: "x = Some v" by auto
    obtain ok' cf' where r: "call cf (On_data index i v) = (ok', cf')"
      by (cases "call cf (On_data index i v)")
    have "length (buf (snd (snd (read_bram_for index (i + 1) ok' cf' inp2)))) \<le> length (buf inp2)"
      using True "1.IH" [OF _ nr [symmetric] _ x [symmetric] t r [symmetric]]
      by simp
    with l1 l2 True nr x t r show ?thesis
      by (subst read_bram_for.simps) simp
  qed
qed

lemma read_bram_le: "length (buf (snd (snd (read_bram cf inp)))) \<le> length (buf inp)"
proof -
  obtain x inp1 where x: "fscanf_blank_u inp = (x, inp1)" by (cases "fscanf_blank_u inp")
  have l: "length (buf inp1) \<le> length (buf inp)" using fscanf_blank_u_le [of inp] x by simp
  show ?thesis
  proof (cases x)
    case None
    with x l show ?thesis by (simp add: read_bram_def)
  next
    case (Some index)
    obtain ok cf1 where c: "call cf (On_bram index) = (ok, cf1)"
      by (cases "call cf (On_bram index)")
    show ?thesis using x Some c l read_bram_for_le [of index 0 ok cf1 inp1]
      by (simp add: read_bram_def)
  qed
qed

lemma next_entry_le: "length (buf (snd (next_entry inp))) \<le> length (buf inp)"
proof (induction inp rule: next_entry.induct)
  case (1 inp)
  obtain la inp1 where n: "next_ns inp = (la, inp1)" by (cases "next_ns inp")
  have l1: "length (buf inp1) \<le> length (buf inp)" using next_ns_le [of inp] n by simp
  show ?case
  proof (cases "la = of_char CHR ''#''")
    case False
    with n l1 show ?thesis by (subst next_entry.simps) simp
  next
    case True
    have "length (buf (fscanf_comment inp1)) < length (buf inp)"
      using next_ns_hash [of inp] n True by simp
    moreover have "length (buf (snd (next_entry (fscanf_comment inp1))))
        \<le> length (buf (fscanf_comment inp1))"
      using "1.IH" [OF n [symmetric] True] by simp
    ultimately show ?thesis using n True by (subst next_entry.simps) simp
  qed
qed

section \<open>The top-level driver\<close>

text \<open>The body of the loop of \<^verbatim>\<open>read_conf\<close>: the dispatch on the verb just read.\<close>

definition conf_entry :: "string \<Rightarrow> 'c config \<Rightarrow> stream \<Rightarrow> 'c result" where
  "conf_entry verb cf inp =
     (if match verb ''.device'' then read_device cf inp
      else if match verb ''.comment'' then read_comment cf inp
      else if match verb ''.sysconfig'' then read_sysconfig cf inp
      else if match verb ''.tile'' then read_tile cf inp
      else if match verb ''.tile_group'' then read_tile_group cf inp
      else if match verb ''.bram_init'' then read_bram cf inp
      else at (conf_error cf (''unknown verb '' @ quoted verb)) inp)"

lemma conf_entry_le:
  "length (buf (snd (snd (conf_entry verb cf inp)))) \<le> length (buf inp)"
  by (simp add: conf_entry_def read_device_le read_comment_le read_sysconfig_le read_tile_le
      read_tile_group_le read_bram_le)

text \<open>What follows the loop of \<^verbatim>\<open>read_conf\<close>:
  \<^verbatim>\<open>return ferror (in) ? conf_error (o, "%s", strerror (errno)) : ok;\<close>\<close>

definition read_conf_end :: "int \<Rightarrow> 'c config \<Rightarrow> stream \<Rightarrow> 'c result" where
  "read_conf_end ok cf inp =
     (if ferr inp then at (conf_error cf (errdesc inp)) inp else (ok, cf, inp))"

function read_conf_while :: "int \<Rightarrow> 'c config \<Rightarrow> stream \<Rightarrow> 'c result" where
  "read_conf_while ok cf inp =
     (if ok = 0 then read_conf_end ok cf inp
      else case next_entry inp of (ne, inp1) \<Rightarrow>
        if ne = 0 then read_conf_end ok cf inp1
        else (case fscanf_s15 inp1 of
                (None, inp2) \<Rightarrow> read_conf_end ok cf inp2
              | (Some verb, inp2) \<Rightarrow>
                  (case conf_entry verb cf inp2 of
                     (ok', cf', inp3) \<Rightarrow> read_conf_while ok' cf' inp3)))"
  by pat_completeness auto
termination
proof (relation "measure (\<lambda>(ok, cf, inp). length (buf inp))")
  show "wf (measure (\<lambda>(ok :: int, cf :: 'c config, inp). length (buf inp)))" by simp
next
  fix ok :: int and cf :: "'c config" and inp ne inp1 x inp2 verb ok' y cf' inp3
  assume "(ne, inp1) = next_entry inp" "(x, inp2) = fscanf_s15 inp1" "x = Some verb"
    "(ok', y) = conf_entry verb cf inp2" "(cf', inp3) = y"
  then have a: "snd (next_entry inp) = inp1" and b: "fst (fscanf_s15 inp1) = Some verb"
    and c: "snd (fscanf_s15 inp1) = inp2" and d: "snd (snd (conf_entry verb cf inp2)) = inp3"
    by (metis snd_conv, metis fst_conv, metis snd_conv, metis snd_conv)
  have "length (buf inp3) \<le> length (buf inp2)" using conf_entry_le [of verb cf inp2] d by simp
  moreover have "length (buf inp2) < length (buf inp1)" using fscanf_s15_less [OF b] c by simp
  moreover have "length (buf inp1) \<le> length (buf inp)" using next_entry_le [of inp] a by simp
  ultimately show "((ok', cf', inp3), (ok, cf, inp)) \<in> measure (\<lambda>(ok, cf, inp). length (buf inp))"
    by simp
qed

declare read_conf_while.simps [simp del]

definition read_conf :: "'c config \<Rightarrow> stream \<Rightarrow> 'c result" where
  "read_conf cf inp = read_conf_while 1 cf inp"


section \<open>The bitmap exporter\<close>

text \<open>
  Modelled from the spec: \<^verbatim>\<open>struct bitmap\<close>, which is declared in \<^verbatim>\<open>dakota/bitmap.h\<close>, a
  header that is not among the sources. \<^verbatim>\<open>bitmap-export.c\<close> writes such a bitmap as a PBM
  file; it uses the sizes \<^verbatim>\<open>width\<close>, \<^verbatim>\<open>height\<close> and \<^verbatim>\<open>pitch\<close> (\<^verbatim>\<open>size_t\<close>) and the two
  planes \<^verbatim>\<open>bits\<close> and \<^verbatim>\<open>mask\<close> (here \<open>mask_bm\<close>), taken as arrays of bytes. A plane is the
  memory behind its pointer: a function from the index to the byte there.
\<close>

record bitmap =
  width :: "64 word"
  height :: "64 word"
  pitch :: "64 word"
  bits :: "nat \<Rightarrow> 8 word"
  mask_bm :: "nat \<Rightarrow> 8 word"

text \<open>\<^verbatim>\<open>((b * 0x80200802ULL) & 0x0884422110ULL) * 0x0101010101ULL >> 32\<close>, computed in 64 bits and
  returned as an \<^verbatim>\<open>unsigned char\<close>.\<close>

definition sample_msb :: "8 word \<Rightarrow> 8 word" where
  "sample_msb b =
     ucast (drop_bit 32
       ((((ucast b :: 64 word) * 0x80200802) AND 0x0884422110) * 0x0101010101))"

text \<open>The byte with its bits in the opposite order, bit by bit.\<close>

definition reverse_bits :: "8 word \<Rightarrow> 8 word" where
  "reverse_bits b =
     push_bit 7 (b AND 1) OR push_bit 5 (b AND 2) OR push_bit 3 (b AND 4) OR push_bit 1 (b AND 8)
     OR drop_bit 1 (b AND 16) OR drop_bit 3 (b AND 32) OR drop_bit 5 (b AND 64)
     OR drop_bit 7 (b AND 128)"

text \<open>\<^verbatim>\<open>%zu\<close>: a number in decimal.\<close>

fun decimal :: "nat \<Rightarrow> string" where
  "decimal n =
     (if n < 10 then [char_of (48 + n)]
      else decimal (n div 10) @ [char_of (48 + n mod 10)])"

declare decimal.simps [simp del]

text \<open>What \<^verbatim>\<open>fprintf (out, "P4\n%zu %zu\n", o->width, o->height)\<close> writes.\<close>

definition bitmap_header :: "bitmap \<Rightarrow> 8 word list" where
  "bitmap_header bm =
     map of_char (''P4'' @ nl @ decimal (unat (width bm)) @ '' '' @ decimal (unat (height bm)) @ nl)"

text \<open>The body of the two loops, for the row \<open>y\<close> and the column \<open>x\<close>: the byte given to
  \<^verbatim>\<open>fputc\<close>. The index is computed in \<^verbatim>\<open>size_t\<close>.\<close>

definition pixel_byte :: "bitmap \<Rightarrow> nat \<Rightarrow> nat \<Rightarrow> 8 word" where
  "pixel_byte bm y x =
     (let i = unat (of_nat y * pitch bm + drop_bit 3 (of_nat x) :: 64 word)
      in sample_msb (bits bm i AND mask_bm bm i))"

text \<open>The loops \<^verbatim>\<open>for (y = 0; y < o->height; ++y) for (x = 0; x < o->width; ++x)\<close>.\<close>

definition bitmap_rows :: "bitmap \<Rightarrow> 8 word list" where
  "bitmap_rows bm =
     concat (map (\<lambda>y. map (\<lambda>x. pixel_byte bm y x) [0..<unat (width bm)])
       [0..<unat (height bm)])"

text \<open>
  What a call of \<^verbatim>\<open>bitmap_export\<close> does: it returns a value and leaves a file with some
  content, or none; or its behaviour is undefined.
\<close>

datatype export_result =
    Returns int "8 word list option"
  | Undefined_behaviour

text \<open>
  \<^verbatim>\<open>bitmap_export\<close>, given whether \<^verbatim>\<open>fopen\<close>, \<^verbatim>\<open>fprintf\<close> and \<^verbatim>\<open>fclose\<close> succeed (the
  results of \<^verbatim>\<open>fputc\<close> are not looked at). When \<^verbatim>\<open>fopen\<close> fails it returns 0. When
  \<^verbatim>\<open>fprintf\<close> fails it goes to \<^verbatim>\<open>error\<close>, closes the stream, removes the file and returns 0.
  When \<^verbatim>\<open>fclose\<close> succeeds it returns 1 and leaves the file. When \<^verbatim>\<open>fclose\<close> fails, control
  falls through to \<^verbatim>\<open>error\<close>, where \<^verbatim>\<open>fclose (out)\<close> is called a second time, on a stream
  that is closed already: C gives this no defined behaviour.
\<close>

definition bitmap_export :: "bitmap \<Rightarrow> bool \<Rightarrow> bool \<Rightarrow> bool \<Rightarrow> export_result" where
  "bitmap_export bm fopen_ok fprintf_ok fclose_ok =
     (if \<not> fopen_ok then Returns 0 None
      else if \<not> fprintf_ok then Returns 0 None
      else if fclose_ok then Returns 1 (Some (bitmap_header bm @ bitmap_rows bm))
      else Undefined_behaviour)"

text \<open>A bitmap of one row of eight pixels, the last of them set.\<close>

definition example_bitmap :: bitmap where
  "example_bitmap =
     \<lparr>width = 8, height = 1, pitch = 1, bits = (\<lambda>i. 0x01), mask_bm = (\<lambda>i. 0xFF)\<rparr>"

section \<open>Example contexts and inputs\<close>

text \<open>
  An action interface whose callbacks all succeed and keep the cookie, one whose
  \<^verbatim>\<open>on_device\<close> refuses, a context with an empty 128-byte error buffer, and a stream over
  a string that ends with end of file (as \<^verbatim>\<open>fmemopen\<close> gives).
\<close>

definition ok_action :: "unit config_action" where
  "ok_action =
     \<lparr>on_device = (\<lambda>c name. (1, c)), on_comment = (\<lambda>c text. (1, c)),
      on_sysconfig = (\<lambda>c name val. (1, c)), on_tile = (\<lambda>c name. (1, c)),
      on_arc = (\<lambda>c sink source. (1, c)), on_word = (\<lambda>c name val. (1, c)),
      on_enum = (\<lambda>c name val. (1, c)), on_unknown = (\<lambda>c val. (1, c)),
      on_bram = (\<lambda>c index. (1, c)), on_data = (\<lambda>c index i val. (1, c)),
      on_commit = (\<lambda>c. (1, c))\<rparr>"

definition veto_action :: "unit config_action" where
  "veto_action = ok_action\<lparr>on_device := (\<lambda>c name. (0, c))\<rparr>"

definition conf0 :: "unit config_action \<Rightarrow> unit config" where
  "conf0 a = \<lparr>action = a, cookie = (), error = [], error_size = 128, calls = []\<rparr>"

definition from_string :: "string \<Rightarrow> stream" where
  "from_string t = \<lparr>buf = t, fault = False, ferr = False, errdesc = ''Input/output error''\<rparr>"

text \<open>What the caller of a reader sees: the value returned, the error buffer, the calls
  made, and the input left.\<close>

definition outcome :: "'c result \<Rightarrow> int \<times> string \<times> (event \<times> int) list \<times> string" where
  "outcome r = (fst r, error (fst (snd r)), calls (fst (snd r)), buf (snd (snd r)))"

section \<open>Notions used in the statements\<close>

text \<open>The two forms of message the specification names: \<^verbatim>\<open><field> required\<close> and
  \<^verbatim>\<open><kind> requires <n> and <m>\<close>.\<close>

fun after_first :: "string \<Rightarrow> string \<Rightarrow> string option" where
  "after_first pat [] = (if pat = [] then Some [] else None)"
| "after_first pat (c # cs) =
     (if prefix pat (c # cs) then Some (drop (length pat) (c # cs)) else after_first pat cs)"

definition form_required :: "string \<Rightarrow> bool" where
  "form_required m = suffix '' required'' m"

definition form_requires :: "string \<Rightarrow> bool" where
  "form_requires m =
     (case after_first '' requires '' m of None \<Rightarrow> False | Some r \<Rightarrow> sublist '' and '' r)"

text \<open>The positions passed to \<^verbatim>\<open>on_data\<close>, in the order of the calls.\<close>

fun data_position :: "event \<times> int \<Rightarrow> 64 word list" where
  "data_position (On_data index i val, r) = [i]"
| "data_position (ev, r) = []"

definition data_positions :: "(event \<times> int) list \<Rightarrow> 64 word list" where
  "data_positions evs = concat (map data_position evs)"

text \<open>The messages the readers write, before they are cut to the size of the buffer.\<close>

definition fixed_messages :: "string list" where
  "fixed_messages =
     [''device name required'', ''empty comment'', ''sysconfig requres name and value'',
      ''arc requires sink and source'', ''word requires name and value'',
      ''enum requires name and value'', ''unknown requires value'', ''tile name required'',
      ''bram index required'', ''hex bram value required'']"

definition parser_message :: "string \<Rightarrow> bool" where
  "parser_message m =
     (m \<in> set fixed_messages
      \<or> (\<exists>t. m = ''unknown verb '' @ quoted t)
      \<or> (\<exists>t. m = ''unknown tile record type '' @ quoted t))"

text \<open>
  The state of a parse that started in the context \<open>b\<close> and now has the context \<open>cf\<close> and
  the result \<open>ok\<close> so far: the calls made since are recorded; as long as \<open>ok\<close> is not 0
  the buffer is as it was and no call has returned 0; and when \<open>ok\<close> is 0, either the last
  call returned 0 and the buffer is as it was, or no call has returned 0 and the buffer
  holds a message for which \<open>P\<close> holds.
\<close>

definition tracks :: "(string \<Rightarrow> bool) \<Rightarrow> 'c config \<Rightarrow> int \<Rightarrow> 'c config \<Rightarrow> bool" where
  "tracks P b ok cf =
     (error_size cf = error_size b \<and>
      (\<exists>evs. calls cf = calls b @ evs \<and>
         (if ok \<noteq> 0 then error cf = error b \<and> list_all (\<lambda>e. snd e \<noteq> 0) evs
          else (error cf = error b \<and> evs \<noteq> [] \<and> snd (last evs) = 0)
               \<or> (list_all (\<lambda>e. snd e \<noteq> 0) evs
                  \<and> (\<exists>m. P m \<and> error cf = take (error_size b - 1) m)))))"

section \<open>Properties of the parser\<close>

lemma outcome_error_update: "outcome (k, cf\<lparr>error := m\<rparr>, s) = (k, m, calls cf, buf s)"
  by (simp add: outcome_def)

lemma conf0_calls: "calls (conf0 a) = []"
  by (simp add: conf0_def)

lemma cstr_literals [simp]:
  "cstr ''arc:'' = ''arc:''" "cstr ''word:'' = ''word:''" "cstr ''enum:'' = ''enum:''"
  "cstr ''unknown:'' = ''unknown:''"
  "cstr ''.device'' = ''.device''" "cstr ''.comment'' = ''.comment''"
  "cstr ''.sysconfig'' = ''.sysconfig''" "cstr ''.tile'' = ''.tile''"
  "cstr ''.tile_group'' = ''.tile_group''" "cstr ''.bram_init'' = ''.bram_init''"
  by (simp_all add: cstr_def)

lemma fscanf_s15_length: "fst (fscanf_s15 s) = Some t \<Longrightarrow> length t \<le> 15"
  by (auto simp: fscanf_s15_def conv_s_width_def Let_def split: if_splits
      intro: order_trans [OF length_takeWhile_le])

lemma cstr_length: "length (cstr t) \<le> length t"
  by (simp add: cstr_def length_takeWhile_le)

subsection \<open>The look-ahead\<close>

text \<open>
  What \<^verbatim>\<open>next_record\<close> and \<^verbatim>\<open>next_entry\<close> return, by the first character after the white
  space. The byte \<^verbatim>\<open>0xFF\<close> is taken for the end of the stream, and it is consumed:
  \<^verbatim>\<open>next_ns\<close> holds the character in a \<^verbatim>\<open>char\<close> and returns it as an \<^verbatim>\<open>int\<close>, which is \<open>-1\<close>
  for this byte, the value of \<^verbatim>\<open>EOF\<close>, and \<^verbatim>\<open>ungetc\<close> puts nothing back when it is given
  \<^verbatim>\<open>EOF\<close>.
\<close>

lemma buf_skip_space: "buf (skip_space s) = dropWhile isspace (buf s)"
  by (simp add: skip_space_def scan_run_def Let_def)

lemma skip_space_fixed: "buf s = c # cs \<Longrightarrow> \<not> isspace c \<Longrightarrow> skip_space s = s"
  by (cases s) (simp add: skip_space_def scan_run_def Let_def)

lemma dropWhile_head: "dropWhile P xs = c # cs \<Longrightarrow> \<not> P c"
  using hd_dropWhile [of P xs] by auto

lemma next_record_at:
  assumes "dropWhile isspace (buf inp) = c # cs" and "c \<noteq> CHR 0xFF"
  shows "next_record inp = (if c = CHR ''.'' then 0 else 1, skip_space inp)"
  using assms next_ns_char [of inp c cs]
  by (simp add: next_record_def buf_skip_space char_to_int_EOF char_to_int_dot)

lemma next_record_end:
  assumes "dropWhile isspace (buf inp) = []"
  shows "next_record inp = (0, skip_space inp)"
  using assms next_ns_empty [of inp] by (simp add: next_record_def buf_skip_space)

lemma next_record_0xFF:
  assumes "dropWhile isspace (buf inp) = CHR 0xFF # cs"
  shows "next_record inp = (0, (skip_space inp)\<lparr>buf := cs\<rparr>)"
  using assms next_ns_char [of inp "CHR 0xFF" cs]
  by (simp add: next_record_def buf_skip_space char_to_int_EOF)

lemma next_entry_at:
  assumes "dropWhile isspace (buf inp) = c # cs" and "c \<noteq> CHR 0xFF" and "c \<noteq> CHR ''#''"
  shows "next_entry inp = (1, skip_space inp)"
  using assms next_ns_char [of inp c cs]
  by (subst next_entry.simps) (simp add: buf_skip_space char_to_int_EOF char_to_int_hash)

lemma next_entry_end:
  assumes "dropWhile isspace (buf inp) = []"
  shows "next_entry inp = (0, skip_space inp)"
  using assms next_ns_empty [of inp]
  by (subst next_entry.simps) (simp add: buf_skip_space EOF_def)

lemma next_entry_0xFF:
  assumes "dropWhile isspace (buf inp) = CHR 0xFF # cs"
  shows "next_entry inp = (0, (skip_space inp)\<lparr>buf := cs\<rparr>)"
proof -
  have "char_to_int CHR 0xFF = - 1" by (simp add: char_to_int_def)
  then have "next_ns inp = (- 1, (skip_space inp)\<lparr>buf := cs\<rparr>)"
    using assms next_ns_char [of inp "CHR 0xFF" cs] by (simp add: buf_skip_space)
  then show ?thesis by (subst next_entry.simps) (simp add: EOF_def)
qed

text \<open>The token \<^verbatim>\<open>%15s\<close> reads where a token starts.\<close>

lemma fscanf_s15_at:
  assumes "buf s = c # cs" and "\<not> isspace c"
  shows "fst (fscanf_s15 s) = Some (c # takeWhile nonspace (take 14 cs))"
  using assms skip_space_fixed [OF assms]
  by (simp add: fscanf_s15_def conv_s_width_def Let_def nonspace_def)

subsection \<open>Unknown keywords in a tile body\<close>

lemma read_tile_conf_while_unknown:
  assumes "ok \<noteq> 0" and "fst (next_record inp) \<noteq> 0"
    and "fst (fscanf_s15 (snd (next_record inp))) = Some type"
    and "cstr type \<notin> {''arc:'', ''word:'', ''enum:'', ''unknown:''}"
    and "0 < error_size cf"
  shows "read_tile_conf_while ok cf inp =
           (0, cf\<lparr>error := take (error_size cf - 1) (''unknown tile record type '' @ quoted type)\<rparr>,
            snd (fscanf_s15 (snd (next_record inp))))"
  using assms
  by (subst read_tile_conf_while.simps)
    (simp add: case_prod_unfold tile_record_def match_def conf_error_def at_def
      read_tile_conf_while.simps [of 0] commit_def)

text \<open>
  A keyword that is none of \<^verbatim>\<open>arc:\<close>, \<^verbatim>\<open>word:\<close>, \<^verbatim>\<open>enum:\<close>, \<^verbatim>\<open>unknown:\<close> and starts with a
  byte other than \<^verbatim>\<open>0xFF\<close> (and other than \<^verbatim>\<open>.\<close>, which starts the next entry): whenever
  the tile-body loop is entered there, \<^verbatim>\<open>read_tile_conf\<close> returns 0 at once, the message
  \<^verbatim>\<open>unknown tile record type '<token>'\<close> is written (whole when the buffer holds 43 bytes),
  the stream stands right after the token, and nothing is called, so no \<^verbatim>\<open>on_commit\<close>.
\<close>

lemma unknown_tile_record_message:
  assumes "ok \<noteq> 0" and "dropWhile isspace (buf inp) = c # cs"
    and "c \<noteq> CHR 0xFF" and "c \<noteq> CHR ''.''"
    and "type = c # takeWhile nonspace (take 14 cs)"
    and "cstr type \<notin> {''arc:'', ''word:'', ''enum:'', ''unknown:''}"
    and "0 < error_size cf"
  shows "read_tile_conf_while ok cf inp =
           (0, cf\<lparr>error := take (error_size cf - 1) (''unknown tile record type '' @ quoted type)\<rparr>,
            snd (fscanf_s15 (skip_space inp)))
         \<and> (43 \<le> error_size cf \<longrightarrow>
              take (error_size cf - 1) (''unknown tile record type '' @ quoted type)
                = ''unknown tile record type '' @ quoted type)"
proof -
  have nr: "next_record inp = (1, skip_space inp)"
    using next_record_at [OF assms(2,3)] assms(4) by simp
  have b: "buf (skip_space inp) = c # cs"
    using assms(2) by (simp add: buf_skip_space)
  have tok: "fst (fscanf_s15 (snd (next_record inp))) = Some type"
    using fscanf_s15_at [OF b dropWhile_head [OF assms(2)]] assms(5) by (simp add: nr)
  have "length (cstr type) \<le> 15"
    using fscanf_s15_length [OF tok] cstr_length [of type] by linarith
  then have len: "43 \<le> error_size cf \<longrightarrow>
              take (error_size cf - 1) (''unknown tile record type '' @ quoted type)
                = ''unknown tile record type '' @ quoted type"
    by (simp add: quoted_def)
  have "read_tile_conf_while ok cf inp =
           (0, cf\<lparr>error := take (error_size cf - 1) (''unknown tile record type '' @ quoted type)\<rparr>,
            snd (fscanf_s15 (skip_space inp)))"
    using read_tile_conf_while_unknown [OF assms(1) _ tok assms(6,7)] by (simp add: nr)
  with len show ?thesis by blast
qed

text \<open>
  A keyword that starts with the byte \<^verbatim>\<open>0xFF\<close>: whatever the keyword is, the loop ends as
  at the end of the stream, with the byte consumed, and \<^verbatim>\<open>on_commit\<close> is called.
\<close>

lemma tile_keyword_0xFF_commits:
  assumes "ok \<noteq> 0" and "dropWhile isspace (buf inp) = CHR 0xFF # cs"
  shows "read_tile_conf_while ok cf inp = at (call cf On_commit) ((skip_space inp)\<lparr>buf := cs\<rparr>)"
  using assms(1) next_record_0xFF [OF assms(2)]
  by (subst read_tile_conf_while.simps) (simp add: commit_def)

text \<open>
  C5. The parser does not fail every tile block that has an unknown body keyword: it
  misses the keywords that start with the byte \<^verbatim>\<open>0xFF\<close>, which \<^verbatim>\<open>next_ns\<close> takes for \<^verbatim>\<open>EOF\<close>.
  Take the block \<^verbatim>\<open>.tile T\<close> whose body line is the byte \<^verbatim>\<open>0xFF\<close> and then \<^verbatim>\<open>bogus: u\<close>. Its
  keyword token is that byte with \<^verbatim>\<open>bogus:\<close>, none of \<^verbatim>\<open>arc:\<close>, \<^verbatim>\<open>word:\<close>, \<^verbatim>\<open>enum:\<close>,
  \<^verbatim>\<open>unknown:\<close>. Yet \<^verbatim>\<open>read_tile_conf\<close> calls \<^verbatim>\<open>on_commit\<close> and returns 1 with no message
  written and the byte consumed, and \<^verbatim>\<open>read_conf\<close> then takes \<^verbatim>\<open>bogus:\<close> for a verb: the
  parse has made the calls \<^verbatim>\<open>on_tile\<close> and \<^verbatim>\<open>on_commit\<close>, and its message is
  \<^verbatim>\<open>unknown verb 'bogus:'\<close>. The same block without the byte \<^verbatim>\<open>0xFF\<close> fails with
  \<^verbatim>\<open>unknown tile record type 'bogus:'\<close> and without \<^verbatim>\<open>on_commit\<close>.
\<close>

theorem unknown_tile_record_0xFF_commits:
  "fst (fscanf_s15 (from_string (nl @ [CHR 0xFF] @ ''bogus: u''))) = Some ([CHR 0xFF] @ ''bogus:'')
   \<and> cstr ([CHR 0xFF] @ ''bogus:'') \<notin> {''arc:'', ''word:'', ''enum:'', ''unknown:''}
   \<and> outcome (read_tile_conf (conf0 ok_action) (from_string (nl @ [CHR 0xFF] @ ''bogus: u'')))
       = (1, [], [(On_commit, 1)], ''bogus: u'')
   \<and> outcome (read_conf (conf0 ok_action)
         (from_string (''.tile T'' @ nl @ [CHR 0xFF] @ ''bogus: u'')))
       = (0, ''unknown verb '' @ [CHR 0x27] @ ''bogus:'' @ [CHR 0x27],
          [(On_tile ''T'', 1), (On_commit, 1)], '' u'')
   \<and> outcome (read_conf (conf0 ok_action) (from_string (''.tile T'' @ nl @ ''bogus: u'')))
       = (0, ''unknown tile record type '' @ [CHR 0x27] @ ''bogus:'' @ [CHR 0x27],
          [(On_tile ''T'', 1)], '' u'')"
  by code_simp

subsection \<open>Unknown verbs\<close>

lemma sublist_take_mid: "length p + length t \<le> k \<Longrightarrow> sublist t (take k (p @ t @ q))"
proof -
  assume "length p + length t \<le> k"
  then have "take k (p @ t @ q) = p @ t @ take (k - length p - length t) q"
    by simp
  then show ?thesis unfolding sublist_def by blast
qed

text \<open>
  A verb that is none of the six and starts with a byte other than \<^verbatim>\<open>0xFF\<close> (and other
  than \<^verbatim>\<open>#\<close>, which starts a comment): whenever the top-level loop is entered there,
  \<^verbatim>\<open>read_conf\<close> returns 0 at once, the stream stands right after the token and nothing else
  of the context changes (no callback is called, no further verb is read). The error
  buffer holds \<^verbatim>\<open>unknown verb '<token>'\<close>, cut to the size of the buffer (from 30 bytes on
  it contains the token), unless the stream has a read error, for which \<^verbatim>\<open>read_conf\<close>
  replaces the message by \<^verbatim>\<open>strerror (errno)\<close>.
\<close>

lemma unknown_verb_message:
  assumes "ok \<noteq> 0" and "dropWhile isspace (buf inp) = c # cs"
    and "c \<noteq> CHR 0xFF" and "c \<noteq> CHR ''#''"
    and "verb = c # takeWhile nonspace (take 14 cs)"
    and "cstr verb \<notin> {''.device'', ''.comment'', ''.sysconfig'', ''.tile'', ''.tile_group'',
           ''.bram_init''}"
    and "0 < error_size cf"
    and "inp' = snd (fscanf_s15 (skip_space inp))"
  shows "read_conf_while ok cf inp =
           (0, cf\<lparr>error := take (error_size cf - 1)
                  (if ferr inp' then errdesc inp' else ''unknown verb '' @ quoted verb)\<rparr>, inp')
         \<and> (30 \<le> error_size cf \<longrightarrow>
              sublist (cstr verb) (take (error_size cf - 1) (''unknown verb '' @ quoted verb)))"
proof -
  have ne: "next_entry inp = (1, skip_space inp)"
    using next_entry_at [OF assms(2,3,4)] .
  have b: "buf (skip_space inp) = c # cs"
    using assms(2) by (simp add: buf_skip_space)
  have tok: "fst (fscanf_s15 (skip_space inp)) = Some verb"
    using fscanf_s15_at [OF b dropWhile_head [OF assms(2)]] assms(5) by simp
  have "length (cstr verb) \<le> 15"
    using fscanf_s15_length [OF tok] cstr_length [of verb] by linarith
  then have "30 \<le> error_size cf \<Longrightarrow>
      length (''unknown verb '' @ [CHR 0x27]) + length (cstr verb) \<le> error_size cf - 1"
    by simp
  then have sub: "30 \<le> error_size cf \<longrightarrow>
      sublist (cstr verb) (take (error_size cf - 1) (''unknown verb '' @ quoted verb))"
    using sublist_take_mid [of "''unknown verb '' @ [CHR 0x27]" "cstr verb" "error_size cf - 1"
        "[CHR 0x27]"]
    by (simp add: quoted_def)
  have "read_conf_while ok cf inp =
           (0, cf\<lparr>error := take (error_size cf - 1)
                  (if ferr inp' then errdesc inp' else ''unknown verb '' @ quoted verb)\<rparr>, inp')"
    using assms(1,6,7,8) tok
    by (subst read_conf_while.simps)
      (simp add: ne case_prod_unfold conf_entry_def match_def conf_error_def at_def
        read_conf_while.simps [of 0] read_conf_end_def)
  with sub show ?thesis by blast
qed

text \<open>
  A verb that starts with the byte \<^verbatim>\<open>0xFF\<close>: whatever the verb is, the loop ends as at the
  end of the stream, with the byte consumed, and \<^verbatim>\<open>read_conf\<close> returns what it has.
\<close>

lemma verb_0xFF_ends_parse:
  assumes "ok \<noteq> 0" and "dropWhile isspace (buf inp) = CHR 0xFF # cs"
  shows "read_conf_while ok cf inp = read_conf_end ok cf ((skip_space inp)\<lparr>buf := cs\<rparr>)"
  using assms(1) next_entry_0xFF [OF assms(2)]
  by (subst read_conf_while.simps) simp

text \<open>
  C6. The parser does not fail on every unknown verb: it misses the verbs that start with
  the byte \<^verbatim>\<open>0xFF\<close>, which \<^verbatim>\<open>next_ns\<close> takes for \<^verbatim>\<open>EOF\<close>. Take the input of three lines:
  \<^verbatim>\<open>.device d\<close>, then the byte \<^verbatim>\<open>0xFF\<close> with \<^verbatim>\<open>oops\<close>, then \<^verbatim>\<open>.device e\<close>. The token after
  the first entry is that byte with \<^verbatim>\<open>oops\<close>, none of the six verbs. Yet \<^verbatim>\<open>read_conf\<close>
  returns 1 after the call for \<^verbatim>\<open>.device d\<close>, with no message written and the byte
  consumed, and it leaves the rest of the input unread. The same input without the byte
  \<^verbatim>\<open>0xFF\<close> fails with \<^verbatim>\<open>unknown verb 'oops'\<close>.
\<close>

theorem unknown_verb_0xFF_succeeds:
  "fst (fscanf_s15 (from_string (nl @ [CHR 0xFF] @ ''oops'' @ nl @ ''.device e'')))
       = Some ([CHR 0xFF] @ ''oops'')
   \<and> cstr ([CHR 0xFF] @ ''oops'') \<notin> {''.device'', ''.comment'', ''.sysconfig'', ''.tile'',
         ''.tile_group'', ''.bram_init''}
   \<and> outcome (read_conf (conf0 ok_action)
         (from_string (''.device d'' @ nl @ [CHR 0xFF] @ ''oops'' @ nl @ ''.device e'')))
       = (1, [], [(On_device ''d'', 1)], ''oops'' @ nl @ ''.device e'')
   \<and> outcome (read_conf (conf0 ok_action)
         (from_string (''.device d'' @ nl @ ''oops'' @ nl @ ''.device e'')))
       = (0, ''unknown verb '' @ [CHR 0x27] @ ''oops'' @ [CHR 0x27],
          [(On_device ''d'', 1)], nl @ ''.device e'')"
  by code_simp

subsection \<open>Comments\<close>

lemma not_isspace_hash: "\<not> isspace CHR ''#''"
  by (simp add: isspace_def)

lemma next_ns_at_hash:
  assumes "dropWhile isspace (buf inp) = CHR ''#'' # rest"
  shows "next_ns inp = (35, skip_space inp)"
  using next_ns_char [of inp "CHR ''#''" rest] assms
  by (simp add: buf_skip_space char_to_int_def)

lemma fscanf_s15_at_hash:
  assumes "buf s = CHR ''#'' # rest"
  shows "fst (fscanf_s15 s) = Some (CHR ''#'' # takeWhile nonspace (take 14 rest))"
  using assms skip_space_fixed [OF assms not_isspace_hash]
  by (simp add: fscanf_s15_def conv_s_width_def Let_def nonspace_def not_isspace_hash)

lemma fscanf_x_at_hash:
  assumes "buf s = CHR ''#'' # rest"
  shows "fscanf_x s = (None, s)"
proof -
  have "\<not> is_digit 16 CHR ''#''" by (simp add: is_digit_def digit_of_def)
  then have "scan_run (is_digit 16) s = ([], s)"
    using assms by (cases s) (simp add: scan_run_def Let_def)
  then show ?thesis
    using assms skip_space_fixed [OF assms not_isspace_hash]
    by (simp add: fscanf_x_def conv_uint_def accept_def)
qed

text \<open>
  C10. Let the next character after white space be \<^verbatim>\<open>#\<close>. At the top level the comment is
  consumed (the \<^verbatim>\<open>#\<close> and the rest of its line) and the parse goes on from there with the
  context unchanged. In a tile body the \<^verbatim>\<open>#\<close> starts the keyword token, and
  \<^verbatim>\<open>read_tile_conf\<close> returns 0 with \<^verbatim>\<open>unknown tile record type '#...'\<close>; in a
  \<^verbatim>\<open>.bram_init\<close> block \<^verbatim>\<open>read_bram\<close> returns 0 with \<^verbatim>\<open>hex bram value required\<close>, the \<^verbatim>\<open>#\<close>
  still unread. In both the context is otherwise unchanged: no callback, so no
  \<^verbatim>\<open>on_commit\<close>.
\<close>

theorem comments_only_at_top_level:
  assumes "ok \<noteq> 0" and "dropWhile isspace (buf inp) = CHR ''#'' # rest"
    and "0 < error_size cf"
  shows "read_conf_while ok cf inp = read_conf_while ok cf (fscanf_comment (skip_space inp))
       \<and> buf (fscanf_comment (skip_space inp)) = dropWhile not_nl rest
       \<and> read_tile_conf_while ok cf inp =
           (0, cf\<lparr>error := take (error_size cf - 1) (''unknown tile record type ''
                   @ quoted (CHR ''#'' # takeWhile nonspace (take 14 rest)))\<rparr>,
            snd (fscanf_s15 (skip_space inp)))
       \<and> read_bram_for index i ok cf inp =
           (0, cf\<lparr>error := take (error_size cf - 1) ''hex bram value required''\<rparr>,
            skip_space inp)"
proof -
  note ns = next_ns_at_hash [OF assms(2)]
  have b: "buf (skip_space inp) = CHR ''#'' # rest"
    using assms(2) by (simp add: buf_skip_space)
  have ne: "next_entry inp = next_entry (fscanf_comment (skip_space inp))"
    by (subst next_entry.simps) (simp add: ns)
  have top: "read_conf_while ok cf inp = read_conf_while ok cf (fscanf_comment (skip_space inp))"
    using assms(1)
    by (simp add: read_conf_while.simps [of ok cf inp]
        read_conf_while.simps [of ok cf "fscanf_comment (skip_space inp)"] ne)
  have cm: "buf (fscanf_comment (skip_space inp)) = dropWhile not_nl rest"
    using b by (simp add: fscanf_comment_def accept_def conv_set_def scan_run_def Let_def)
  have nr: "next_record inp = (1, skip_space inp)"
    by (simp add: next_record_def ns EOF_def)
  have tok: "fst (fscanf_s15 (snd (next_record inp)))
      = Some (CHR ''#'' # takeWhile nonspace (take 14 rest))"
    using fscanf_s15_at_hash [OF b] by (simp add: nr)
  have "cstr (CHR ''#'' # takeWhile nonspace (take 14 rest))
      \<notin> {''arc:'', ''word:'', ''enum:'', ''unknown:''}"
    by (simp add: cstr_def)
  then have tile: "read_tile_conf_while ok cf inp =
           (0, cf\<lparr>error := take (error_size cf - 1) (''unknown tile record type ''
                   @ quoted (CHR ''#'' # takeWhile nonspace (take 14 rest)))\<rparr>,
            snd (fscanf_s15 (skip_space inp)))"
    using read_tile_conf_while_unknown [OF assms(1) _ tok _ assms(3)] by (simp add: nr)
  have bram: "read_bram_for index i ok cf inp =
           (0, cf\<lparr>error := take (error_size cf - 1) ''hex bram value required''\<rparr>,
            skip_space inp)"
    using assms(1,3)
    by (subst read_bram_for.simps)
      (simp add: nr fscanf_x_at_hash [OF b] conf_error_def at_def)
  from top cm tile bram show ?thesis by blast
qed


text \<open>A comment line followed by \<^verbatim>\<open>arc: a b\<close>, met by each of the three loops, and three whole
  parses with a comment line at the top level, in a tile body and in a \<^verbatim>\<open>.bram_init\<close> block.\<close>

theorem comments_only_at_top_level_witness:
  "buf (fscanf_comment (skip_space (from_string (nl @ ''# c'' @ nl @ ''arc: a b''))))
     = nl @ ''arc: a b''
   \<and> outcome (read_tile_conf_while 1 (conf0 ok_action)
        (from_string (nl @ ''# c'' @ nl @ ''arc: a b''))) =
     (0, ''unknown tile record type '' @ [CHR 0x27] @ ''#'' @ [CHR 0x27], [],
      '' c'' @ nl @ ''arc: a b'')
   \<and> outcome (read_bram_for 1 0 1 (conf0 ok_action)
        (from_string (nl @ ''# c'' @ nl @ ''arc: a b''))) =
     (0, ''hex bram value required'', [], ''# c'' @ nl @ ''arc: a b'')
   \<and> outcome (read_conf (conf0 ok_action) (from_string (''# c'' @ nl @ ''.device d''))) =
     (1, [], [(On_device ''d'', 1)], [])
   \<and> outcome (read_conf (conf0 ok_action)
        (from_string (''.tile T'' @ nl @ ''# c'' @ nl @ ''arc: a b''))) =
     (0, ''unknown tile record type '' @ [CHR 0x27] @ ''#'' @ [CHR 0x27], [(On_tile ''T'', 1)],
      '' c'' @ nl @ ''arc: a b'')
   \<and> outcome (read_conf (conf0 ok_action)
        (from_string (''.bram_init 1'' @ nl @ ''# c'' @ nl @ ''0a''))) =
     (0, ''hex bram value required'', [(On_bram 1, 1)], ''# c'' @ nl @ ''0a'')"
proof -
  let ?inp = "from_string (nl @ ''# c'' @ nl @ ''arc: a b'')"
  let ?rest = "'' c'' @ nl @ ''arc: a b''"
  let ?cf = "conf0 ok_action"
  have one: "(1 :: int) \<noteq> 0" by simp
  have a: "dropWhile isspace (buf ?inp) = CHR ''#'' # ?rest" by code_simp
  have b: "0 < error_size ?cf" by code_simp
  have c: "dropWhile not_nl ?rest = nl @ ''arc: a b''" by code_simp
  have d: "take (error_size ?cf - 1) (''unknown tile record type ''
      @ quoted (CHR ''#'' # takeWhile nonspace (take 14 ?rest)))
      = ''unknown tile record type '' @ [CHR 0x27] @ ''#'' @ [CHR 0x27]" by code_simp
  have e: "buf (snd (fscanf_s15 (skip_space ?inp))) = '' c'' @ nl @ ''arc: a b''" by code_simp
  have f: "take (error_size ?cf - 1) ''hex bram value required'' = ''hex bram value required''"
    by code_simp
  have g: "buf (skip_space ?inp) = ''# c'' @ nl @ ''arc: a b''" by code_simp
  note t = comments_only_at_top_level [OF one a b, of 1 0]
  from t have "buf (fscanf_comment (skip_space ?inp)) = dropWhile not_nl ?rest" by blast
  then have r1: "buf (fscanf_comment (skip_space ?inp)) = nl @ ''arc: a b''" by (simp only: c)
  from t have "read_tile_conf_while 1 ?cf ?inp =
           (0, ?cf\<lparr>error := take (error_size ?cf - 1) (''unknown tile record type ''
                   @ quoted (CHR ''#'' # takeWhile nonspace (take 14 ?rest)))\<rparr>,
            snd (fscanf_s15 (skip_space ?inp)))" by blast
  then have r2: "outcome (read_tile_conf_while 1 ?cf ?inp) =
     (0, ''unknown tile record type '' @ [CHR 0x27] @ ''#'' @ [CHR 0x27], [],
      '' c'' @ nl @ ''arc: a b'')"
    by (simp only: outcome_error_update d e conf0_calls)
  from t have "read_bram_for 1 0 1 ?cf ?inp =
           (0, ?cf\<lparr>error := take (error_size ?cf - 1) ''hex bram value required''\<rparr>,
            skip_space ?inp)" by blast
  then have r3: "outcome (read_bram_for 1 0 1 ?cf ?inp) =
     (0, ''hex bram value required'', [], ''# c'' @ nl @ ''arc: a b'')"
    by (simp only: outcome_error_update f g conf0_calls)
  have r4: "outcome (read_conf ?cf (from_string (''# c'' @ nl @ ''.device d''))) =
     (1, [], [(On_device ''d'', 1)], [])" by code_simp
  have r5: "outcome (read_conf ?cf (from_string (''.tile T'' @ nl @ ''# c'' @ nl @ ''arc: a b''))) =
     (0, ''unknown tile record type '' @ [CHR 0x27] @ ''#'' @ [CHR 0x27], [(On_tile ''T'', 1)],
      '' c'' @ nl @ ''arc: a b'')" by code_simp
  have r6: "outcome (read_conf ?cf (from_string (''.bram_init 1'' @ nl @ ''# c'' @ nl @ ''0a''))) =
     (0, ''hex bram value required'', [(On_bram 1, 1)], ''# c'' @ nl @ ''0a'')" by code_simp
  from r1 r2 r3 r4 r5 r6 show ?thesis by (intro conjI)
qed


subsection \<open>Missing fields\<close>

text \<open>
  C7, as the specification states it, fails: \<^verbatim>\<open>.comment\<close> with nothing after it on its line
  makes \<^verbatim>\<open>read_comment\<close> write \<^verbatim>\<open>empty comment\<close>, which is of neither form.
\<close>

theorem missing_field_message_form_counterexample:
  "fst (read_comment (conf0 ok_action) (from_string nl)) = 0
   \<and> error (fst (snd (read_comment (conf0 ok_action) (from_string nl)))) = ''empty comment''
   \<and> \<not> form_required (error (fst (snd (read_comment (conf0 ok_action) (from_string nl)))))
   \<and> \<not> form_requires (error (fst (snd (read_comment (conf0 ok_action) (from_string nl)))))"
  by code_simp

text \<open>
  C7, amended. A leaf reader whose fields cannot be extracted returns 0 and changes nothing
  of the context but the error buffer (so it calls nothing), into which it writes its own
  message, cut to the size of the buffer: \<^verbatim>\<open>device name required\<close>, \<^verbatim>\<open>empty comment\<close>,
  \<^verbatim>\<open>arc requires sink and source\<close>, \<^verbatim>\<open>word requires name and value\<close>,
  \<^verbatim>\<open>enum requires name and value\<close>, \<^verbatim>\<open>unknown requires value\<close>, and for \<^verbatim>\<open>.sysconfig\<close> a
  message that starts with \<^verbatim>\<open>sysconfig\<close> and ends with \<^verbatim>\<open>name and value\<close>.
\<close>

theorem missing_field_fails:
  assumes "0 < error_size cf"
  shows "(fst (fscanf_blank_s inp) = None \<longrightarrow>
            read_device cf inp =
              (0, cf\<lparr>error := take (error_size cf - 1) ''device name required''\<rparr>,
               snd (fscanf_blank_s inp)))
       \<and> (fst (fscanf_blank_line inp) = None \<longrightarrow>
            read_comment cf inp =
              (0, cf\<lparr>error := take (error_size cf - 1) ''empty comment''\<rparr>,
               snd (fscanf_blank_line inp)))
       \<and> (fst (fscanf_blank_s_blank_s inp) = None \<longrightarrow>
            (\<exists>m. prefix ''sysconfig'' m \<and> suffix ''name and value'' m \<and>
              read_sysconfig cf inp =
                (0, cf\<lparr>error := take (error_size cf - 1) m\<rparr>, snd (fscanf_blank_s_blank_s inp))))
       \<and> (fst (fscanf_blank_s_blank_s inp) = None \<longrightarrow>
            read_arc cf inp =
              (0, cf\<lparr>error := take (error_size cf - 1) ''arc requires sink and source''\<rparr>,
               snd (fscanf_blank_s_blank_s inp)))
       \<and> (fst (fscanf_blank_s_blank_s inp) = None \<longrightarrow>
            read_word cf inp =
              (0, cf\<lparr>error := take (error_size cf - 1) ''word requires name and value''\<rparr>,
               snd (fscanf_blank_s_blank_s inp)))
       \<and> (fst (fscanf_blank_s_blank_s inp) = None \<longrightarrow>
            read_enum cf inp =
              (0, cf\<lparr>error := take (error_size cf - 1) ''enum requires name and value''\<rparr>,
               snd (fscanf_blank_s_blank_s inp)))
       \<and> (fst (fscanf_blank_s inp) = None \<longrightarrow>
            read_unknown cf inp =
              (0, cf\<lparr>error := take (error_size cf - 1) ''unknown requires value''\<rparr>,
               snd (fscanf_blank_s inp)))"
proof -
  have dev: "fst (fscanf_blank_s inp) = None \<longrightarrow>
            read_device cf inp =
              (0, cf\<lparr>error := take (error_size cf - 1) ''device name required''\<rparr>,
               snd (fscanf_blank_s inp))"
    using assms by (simp add: read_device_def case_prod_unfold conf_error_def at_def)
  have com: "fst (fscanf_blank_line inp) = None \<longrightarrow>
            read_comment cf inp =
              (0, cf\<lparr>error := take (error_size cf - 1) ''empty comment''\<rparr>,
               snd (fscanf_blank_line inp))"
    using assms by (simp add: read_comment_def case_prod_unfold conf_error_def at_def)
  have "prefix ''sysconfig'' ''sysconfig requres name and value''"
    and "suffix ''name and value'' ''sysconfig requres name and value''"
    by code_simp+
  moreover have "fst (fscanf_blank_s_blank_s inp) = None \<longrightarrow>
            read_sysconfig cf inp =
              (0, cf\<lparr>error := take (error_size cf - 1) ''sysconfig requres name and value''\<rparr>,
               snd (fscanf_blank_s_blank_s inp))"
    using assms by (simp add: read_sysconfig_def case_prod_unfold conf_error_def at_def)
  ultimately have sys: "fst (fscanf_blank_s_blank_s inp) = None \<longrightarrow>
            (\<exists>m. prefix ''sysconfig'' m \<and> suffix ''name and value'' m \<and>
              read_sysconfig cf inp =
                (0, cf\<lparr>error := take (error_size cf - 1) m\<rparr>, snd (fscanf_blank_s_blank_s inp)))"
    by blast
  have arc: "fst (fscanf_blank_s_blank_s inp) = None \<longrightarrow>
            read_arc cf inp =
              (0, cf\<lparr>error := take (error_size cf - 1) ''arc requires sink and source''\<rparr>,
               snd (fscanf_blank_s_blank_s inp))"
    using assms by (simp add: read_arc_def case_prod_unfold conf_error_def at_def)
  have wrd: "fst (fscanf_blank_s_blank_s inp) = None \<longrightarrow>
            read_word cf inp =
              (0, cf\<lparr>error := take (error_size cf - 1) ''word requires name and value''\<rparr>,
               snd (fscanf_blank_s_blank_s inp))"
    using assms by (simp add: read_word_def case_prod_unfold conf_error_def at_def)
  have enm: "fst (fscanf_blank_s_blank_s inp) = None \<longrightarrow>
            read_enum cf inp =
              (0, cf\<lparr>error := take (error_size cf - 1) ''enum requires name and value''\<rparr>,
               snd (fscanf_blank_s_blank_s inp))"
    using assms by (simp add: read_enum_def case_prod_unfold conf_error_def at_def)
  have unk: "fst (fscanf_blank_s inp) = None \<longrightarrow>
            read_unknown cf inp =
              (0, cf\<lparr>error := take (error_size cf - 1) ''unknown requires value''\<rparr>,
               snd (fscanf_blank_s inp))"
    using assms by (simp add: read_unknown_def case_prod_unfold conf_error_def at_def)
  from dev com sys arc wrd enm unk show ?thesis by (intro conjI)
qed

text \<open>\<^verbatim>\<open>.device\<close> at the end of its line: \<^verbatim>\<open>read_device\<close> on what follows the verb, and the
  whole parse, in which \<^verbatim>\<open>on_device\<close> is not called, also not for the next line.\<close>

theorem missing_field_fails_witness:
  "outcome (read_device (conf0 ok_action) (from_string (nl @ ''.device foo''))) =
     (0, ''device name required'', [], nl @ ''.device foo'')
   \<and> outcome (read_comment (conf0 ok_action) (from_string (nl @ ''.device foo''))) =
     (0, ''empty comment'', [], nl @ ''.device foo'')
   \<and> fst (read_sysconfig (conf0 ok_action) (from_string (nl @ ''.device foo''))) = 0
   \<and> calls (fst (snd (read_sysconfig (conf0 ok_action) (from_string (nl @ ''.device foo''))))) = []
   \<and> outcome (read_arc (conf0 ok_action) (from_string (nl @ ''.device foo''))) =
     (0, ''arc requires sink and source'', [], nl @ ''.device foo'')
   \<and> outcome (read_word (conf0 ok_action) (from_string (nl @ ''.device foo''))) =
     (0, ''word requires name and value'', [], nl @ ''.device foo'')
   \<and> outcome (read_enum (conf0 ok_action) (from_string (nl @ ''.device foo''))) =
     (0, ''enum requires name and value'', [], nl @ ''.device foo'')
   \<and> outcome (read_unknown (conf0 ok_action) (from_string (nl @ ''.device foo''))) =
     (0, ''unknown requires value'', [], nl @ ''.device foo'')
   \<and> outcome (read_conf (conf0 ok_action) (from_string (''.device'' @ nl @ ''.device foo''))) =
     (0, ''device name required'', [], nl @ ''.device foo'')"
proof -
  let ?inp = "from_string (nl @ ''.device foo'')"
  let ?cf = "conf0 ok_action"
  have a: "0 < error_size ?cf" by code_simp
  have b: "fst (fscanf_blank_s ?inp) = None" "fst (fscanf_blank_line ?inp) = None"
    "fst (fscanf_blank_s_blank_s ?inp) = None" by code_simp+
  have c: "buf (snd (fscanf_blank_s ?inp)) = nl @ ''.device foo''"
    "buf (snd (fscanf_blank_line ?inp)) = nl @ ''.device foo''"
    "buf (snd (fscanf_blank_s_blank_s ?inp)) = nl @ ''.device foo''" by code_simp+
  have d: "take (error_size ?cf - 1) ''device name required'' = ''device name required''"
    "take (error_size ?cf - 1) ''empty comment'' = ''empty comment''"
    "take (error_size ?cf - 1) ''arc requires sink and source'' = ''arc requires sink and source''"
    "take (error_size ?cf - 1) ''word requires name and value'' = ''word requires name and value''"
    "take (error_size ?cf - 1) ''enum requires name and value'' = ''enum requires name and value''"
    "take (error_size ?cf - 1) ''unknown requires value'' = ''unknown requires value''"
    by code_simp+
  note t = missing_field_fails [OF a, of ?inp]
  from t b have "read_device ?cf ?inp =
      (0, ?cf\<lparr>error := take (error_size ?cf - 1) ''device name required''\<rparr>,
       snd (fscanf_blank_s ?inp))" by blast
  then have r1: "outcome (read_device ?cf ?inp) =
     (0, ''device name required'', [], nl @ ''.device foo'')"
    by (simp only: outcome_error_update c d conf0_calls)
  from t b have "read_comment ?cf ?inp =
      (0, ?cf\<lparr>error := take (error_size ?cf - 1) ''empty comment''\<rparr>,
       snd (fscanf_blank_line ?inp))" by blast
  then have r2: "outcome (read_comment ?cf ?inp) =
     (0, ''empty comment'', [], nl @ ''.device foo'')"
    by (simp only: outcome_error_update c d conf0_calls)
  from t b obtain m where "read_sysconfig ?cf ?inp =
      (0, ?cf\<lparr>error := take (error_size ?cf - 1) m\<rparr>, snd (fscanf_blank_s_blank_s ?inp))"
    by blast
  then have r3: "fst (read_sysconfig ?cf ?inp) = 0"
    and r3': "calls (fst (snd (read_sysconfig ?cf ?inp))) = []"
    by (simp_all add: conf0_calls)
  from t b have "read_arc ?cf ?inp =
      (0, ?cf\<lparr>error := take (error_size ?cf - 1) ''arc requires sink and source''\<rparr>,
       snd (fscanf_blank_s_blank_s ?inp))" by blast
  then have r4: "outcome (read_arc ?cf ?inp) =
     (0, ''arc requires sink and source'', [], nl @ ''.device foo'')"
    by (simp only: outcome_error_update c d conf0_calls)
  from t b have "read_word ?cf ?inp =
      (0, ?cf\<lparr>error := take (error_size ?cf - 1) ''word requires name and value''\<rparr>,
       snd (fscanf_blank_s_blank_s ?inp))" by blast
  then have r5: "outcome (read_word ?cf ?inp) =
     (0, ''word requires name and value'', [], nl @ ''.device foo'')"
    by (simp only: outcome_error_update c d conf0_calls)
  from t b have "read_enum ?cf ?inp =
      (0, ?cf\<lparr>error := take (error_size ?cf - 1) ''enum requires name and value''\<rparr>,
       snd (fscanf_blank_s_blank_s ?inp))" by blast
  then have r6: "outcome (read_enum ?cf ?inp) =
     (0, ''enum requires name and value'', [], nl @ ''.device foo'')"
    by (simp only: outcome_error_update c d conf0_calls)
  from t b have "read_unknown ?cf ?inp =
      (0, ?cf\<lparr>error := take (error_size ?cf - 1) ''unknown requires value''\<rparr>,
       snd (fscanf_blank_s ?inp))" by blast
  then have r7: "outcome (read_unknown ?cf ?inp) =
     (0, ''unknown requires value'', [], nl @ ''.device foo'')"
    by (simp only: outcome_error_update c d conf0_calls)
  have r8: "outcome (read_conf ?cf (from_string (''.device'' @ nl @ ''.device foo''))) =
     (0, ''device name required'', [], nl @ ''.device foo'')" by code_simp
  from r1 r2 r3 r3' r4 r5 r6 r7 r8 show ?thesis by (intro conjI)
qed


subsection \<open>Termination\<close>

text \<open>
  C8. \<^verbatim>\<open>read_conf\<close> and the readers under it are total functions: each loop is defined by
  recursion on the length of the input left, and the facts that make this a definition
  are the ones below. A pass of the top-level loop, of the tile-body loop or of the
  \<^verbatim>\<open>.bram_init\<close> loop either goes round again, on an input that is strictly shorter (the
  token or value it read is at least one character), or leaves the loop: for the value of
  the function (through the commit or the \<^verbatim>\<open>ferror\<close> test that follows the loop) or by the
  \<^verbatim>\<open>return\<close> in the body of the \<^verbatim>\<open>.bram_init\<close> loop.
\<close>

theorem loops_consume_input:
  "(ok \<noteq> 0 \<and> fst (next_entry inp) \<noteq> 0 \<and> fst (fscanf_s15 (snd (next_entry inp))) = Some verb \<longrightarrow>
      read_conf_while ok cf inp =
        (case conf_entry verb cf (snd (fscanf_s15 (snd (next_entry inp)))) of
           (ok', cf', inp') \<Rightarrow> read_conf_while ok' cf' inp')
      \<and> length (buf (snd (snd (conf_entry verb cf (snd (fscanf_s15 (snd (next_entry inp)))))))) <
          length (buf inp))
   \<and> (\<not> (ok \<noteq> 0 \<and> fst (next_entry inp) \<noteq> 0 \<and> fst (fscanf_s15 (snd (next_entry inp))) \<noteq> None) \<longrightarrow>
      (\<exists>inp'. read_conf_while ok cf inp = read_conf_end ok cf inp'))
   \<and> (ok \<noteq> 0 \<and> fst (next_record inp) \<noteq> 0 \<and> fst (fscanf_s15 (snd (next_record inp))) = Some type \<longrightarrow>
      read_tile_conf_while ok cf inp =
        (case tile_record type cf (snd (fscanf_s15 (snd (next_record inp)))) of
           (ok', cf', inp') \<Rightarrow> read_tile_conf_while ok' cf' inp')
      \<and> length (buf (snd (snd (tile_record type cf (snd (fscanf_s15 (snd (next_record inp)))))))) <
          length (buf inp))
   \<and> (\<not> (ok \<noteq> 0 \<and> fst (next_record inp) \<noteq> 0 \<and> fst (fscanf_s15 (snd (next_record inp))) \<noteq> None) \<longrightarrow>
      (\<exists>inp'. read_tile_conf_while ok cf inp = commit ok cf inp'))
   \<and> (ok \<noteq> 0 \<and> fst (next_record inp) \<noteq> 0 \<and> fst (fscanf_x (snd (next_record inp))) = Some val \<longrightarrow>
      read_bram_for index i ok cf inp =
        (case call cf (On_data index i val) of
           (ok', cf') \<Rightarrow> read_bram_for index (i + 1) ok' cf' (snd (fscanf_x (snd (next_record inp)))))
      \<and> length (buf (snd (fscanf_x (snd (next_record inp))))) < length (buf inp))
   \<and> (\<not> (ok \<noteq> 0 \<and> fst (next_record inp) \<noteq> 0 \<and> fst (fscanf_x (snd (next_record inp))) \<noteq> None) \<longrightarrow>
      (\<exists>inp'. read_bram_for index i ok cf inp = commit ok cf inp'
           \<or> read_bram_for index i ok cf inp
               = at (conf_error cf ''hex bram value required'') inp'))"
proof -
  have top: "ok \<noteq> 0 \<and> fst (next_entry inp) \<noteq> 0
      \<and> fst (fscanf_s15 (snd (next_entry inp))) = Some verb \<longrightarrow>
      read_conf_while ok cf inp =
        (case conf_entry verb cf (snd (fscanf_s15 (snd (next_entry inp)))) of
           (ok', cf', inp') \<Rightarrow> read_conf_while ok' cf' inp')
      \<and> length (buf (snd (snd (conf_entry verb cf (snd (fscanf_s15 (snd (next_entry inp)))))))) <
          length (buf inp)"
  proof (intro impI conjI)
    assume h: "ok \<noteq> 0 \<and> fst (next_entry inp) \<noteq> 0
      \<and> fst (fscanf_s15 (snd (next_entry inp))) = Some verb"
    then show "read_conf_while ok cf inp =
        (case conf_entry verb cf (snd (fscanf_s15 (snd (next_entry inp)))) of
           (ok', cf', inp') \<Rightarrow> read_conf_while ok' cf' inp')"
      by (subst read_conf_while.simps) (simp add: case_prod_unfold)
    from h have "length (buf (snd (fscanf_s15 (snd (next_entry inp))))) <
        length (buf (snd (next_entry inp)))"
      by (simp add: fscanf_s15_less)
    with next_entry_le [of inp]
      conf_entry_le [of verb cf "snd (fscanf_s15 (snd (next_entry inp)))"]
    show "length (buf (snd (snd (conf_entry verb cf (snd (fscanf_s15 (snd (next_entry inp)))))))) <
          length (buf inp)"
      by linarith
  qed
  have top_exit: "\<not> (ok \<noteq> 0 \<and> fst (next_entry inp) \<noteq> 0
      \<and> fst (fscanf_s15 (snd (next_entry inp))) \<noteq> None) \<longrightarrow>
      (\<exists>inp'. read_conf_while ok cf inp = read_conf_end ok cf inp')"
    by (subst read_conf_while.simps) (auto simp: case_prod_unfold)
  have tile: "ok \<noteq> 0 \<and> fst (next_record inp) \<noteq> 0
      \<and> fst (fscanf_s15 (snd (next_record inp))) = Some type \<longrightarrow>
      read_tile_conf_while ok cf inp =
        (case tile_record type cf (snd (fscanf_s15 (snd (next_record inp)))) of
           (ok', cf', inp') \<Rightarrow> read_tile_conf_while ok' cf' inp')
      \<and> length (buf (snd (snd (tile_record type cf (snd (fscanf_s15 (snd (next_record inp)))))))) <
          length (buf inp)"
  proof (intro impI conjI)
    assume h: "ok \<noteq> 0 \<and> fst (next_record inp) \<noteq> 0
      \<and> fst (fscanf_s15 (snd (next_record inp))) = Some type"
    then show "read_tile_conf_while ok cf inp =
        (case tile_record type cf (snd (fscanf_s15 (snd (next_record inp)))) of
           (ok', cf', inp') \<Rightarrow> read_tile_conf_while ok' cf' inp')"
      by (subst read_tile_conf_while.simps) (simp add: case_prod_unfold)
    from h have "length (buf (snd (fscanf_s15 (snd (next_record inp))))) <
        length (buf (snd (next_record inp)))"
      by (simp add: fscanf_s15_less)
    with next_record_le [of inp]
      tile_record_le [of type cf "snd (fscanf_s15 (snd (next_record inp)))"]
    show "length (buf (snd (snd (tile_record type cf (snd (fscanf_s15 (snd (next_record inp)))))))) <
          length (buf inp)"
      by linarith
  qed
  have tile_exit: "\<not> (ok \<noteq> 0 \<and> fst (next_record inp) \<noteq> 0
      \<and> fst (fscanf_s15 (snd (next_record inp))) \<noteq> None) \<longrightarrow>
      (\<exists>inp'. read_tile_conf_while ok cf inp = commit ok cf inp')"
    by (subst read_tile_conf_while.simps) (auto simp: case_prod_unfold)
  have bram: "ok \<noteq> 0 \<and> fst (next_record inp) \<noteq> 0
      \<and> fst (fscanf_x (snd (next_record inp))) = Some val \<longrightarrow>
      read_bram_for index i ok cf inp =
        (case call cf (On_data index i val) of
           (ok', cf') \<Rightarrow> read_bram_for index (i + 1) ok' cf' (snd (fscanf_x (snd (next_record inp)))))
      \<and> length (buf (snd (fscanf_x (snd (next_record inp))))) < length (buf inp)"
  proof (intro impI conjI)
    assume h: "ok \<noteq> 0 \<and> fst (next_record inp) \<noteq> 0
      \<and> fst (fscanf_x (snd (next_record inp))) = Some val"
    then show "read_bram_for index i ok cf inp =
        (case call cf (On_data index i val) of
           (ok', cf') \<Rightarrow> read_bram_for index (i + 1) ok' cf' (snd (fscanf_x (snd (next_record inp)))))"
      by (subst read_bram_for.simps) (simp add: case_prod_unfold)
    from h have "length (buf (snd (fscanf_x (snd (next_record inp))))) <
        length (buf (snd (next_record inp)))"
      by (simp add: fscanf_x_less)
    with next_record_le [of inp]
    show "length (buf (snd (fscanf_x (snd (next_record inp))))) < length (buf inp)"
      by linarith
  qed
  have bram_exit: "\<not> (ok \<noteq> 0 \<and> fst (next_record inp) \<noteq> 0
      \<and> fst (fscanf_x (snd (next_record inp))) \<noteq> None) \<longrightarrow>
      (\<exists>inp'. read_bram_for index i ok cf inp = commit ok cf inp'
           \<or> read_bram_for index i ok cf inp
               = at (conf_error cf ''hex bram value required'') inp')"
    by (subst read_bram_for.simps, subst (2) read_bram_for.simps) (auto simp: case_prod_unfold)
  from top top_exit tile tile_exit bram bram_exit show ?thesis by (intro conjI)
qed


text \<open>One pass of each loop that goes round (\<^verbatim>\<open>.device d\<close>, \<^verbatim>\<open>arc: a b\<close>, \<^verbatim>\<open>0a\<close>), and one of
  each that leaves (at the end of the input).\<close>

theorem loops_consume_input_witness:
  "length (buf (snd (snd (conf_entry ''.device'' (conf0 ok_action)
       (snd (fscanf_s15 (snd (next_entry (from_string ''.device d'')))))))))
     < length (buf (from_string ''.device d''))
   \<and> length (buf (snd (snd (tile_record ''arc:'' (conf0 ok_action)
       (snd (fscanf_s15 (snd (next_record (from_string ''arc: a b'')))))))))
     < length (buf (from_string ''arc: a b''))
   \<and> length (buf (snd (fscanf_x (snd (next_record (from_string ''0a''))))))
     < length (buf (from_string ''0a''))
   \<and> (\<exists>inp'. read_conf_while 1 (conf0 ok_action) (from_string []) =
         read_conf_end 1 (conf0 ok_action) inp')
   \<and> (\<exists>inp'. read_tile_conf_while 1 (conf0 ok_action) (from_string []) =
         commit 1 (conf0 ok_action) inp')
   \<and> (\<exists>inp'. read_bram_for 5 0 1 (conf0 ok_action) (from_string []) =
         commit 1 (conf0 ok_action) inp'
       \<or> read_bram_for 5 0 1 (conf0 ok_action) (from_string []) =
         at (conf_error (conf0 ok_action) ''hex bram value required'') inp')"
proof -
  let ?cf = "conf0 ok_action"
  let ?e = "from_string []"
  have h1: "(1 :: int) \<noteq> 0 \<and> fst (next_entry (from_string ''.device d'')) \<noteq> 0
      \<and> fst (fscanf_s15 (snd (next_entry (from_string ''.device d'')))) = Some ''.device''"
    by code_simp
  have h2: "(1 :: int) \<noteq> 0 \<and> fst (next_record (from_string ''arc: a b'')) \<noteq> 0
      \<and> fst (fscanf_s15 (snd (next_record (from_string ''arc: a b'')))) = Some ''arc:''"
    by code_simp
  have h3: "(1 :: int) \<noteq> 0 \<and> fst (next_record (from_string ''0a'')) \<noteq> 0
      \<and> fst (fscanf_x (snd (next_record (from_string ''0a'')))) = Some 10"
    by code_simp
  have h4: "\<not> ((1 :: int) \<noteq> 0 \<and> fst (next_entry ?e) \<noteq> 0
      \<and> fst (fscanf_s15 (snd (next_entry ?e))) \<noteq> None)"
    by code_simp
  have h5: "\<not> ((1 :: int) \<noteq> 0 \<and> fst (next_record ?e) \<noteq> 0
      \<and> fst (fscanf_s15 (snd (next_record ?e))) \<noteq> None)"
    by code_simp
  have h6: "\<not> ((1 :: int) \<noteq> 0 \<and> fst (next_record ?e) \<noteq> 0
      \<and> fst (fscanf_x (snd (next_record ?e))) \<noteq> None)"
    by code_simp
  note t1 = loops_consume_input [where ok = 1 and inp = "from_string ''.device d''"
      and verb = "''.device''" and cf = ?cf and type = "''arc:''" and val = 10
      and index = 5 and i = 0]
  note t2 = loops_consume_input [where ok = 1 and inp = "from_string ''arc: a b''"
      and verb = "''.device''" and cf = ?cf and type = "''arc:''" and val = 10
      and index = 5 and i = 0]
  note t3 = loops_consume_input [where ok = 1 and inp = "from_string ''0a''"
      and verb = "''.device''" and cf = ?cf and type = "''arc:''" and val = 10
      and index = 5 and i = 0]
  note t4 = loops_consume_input [where ok = 1 and inp = ?e
      and verb = "''.device''" and cf = ?cf and type = "''arc:''" and val = 10
      and index = 5 and i = 0]
  from t1 h1 have r1: "length (buf (snd (snd (conf_entry ''.device'' ?cf
       (snd (fscanf_s15 (snd (next_entry (from_string ''.device d'')))))))))
     < length (buf (from_string ''.device d''))"
    by blast
  from t2 h2 have r2: "length (buf (snd (snd (tile_record ''arc:'' ?cf
       (snd (fscanf_s15 (snd (next_record (from_string ''arc: a b'')))))))))
     < length (buf (from_string ''arc: a b''))"
    by blast
  from t3 h3 have r3: "length (buf (snd (fscanf_x (snd (next_record (from_string ''0a''))))))
     < length (buf (from_string ''0a''))"
    by blast
  from t4 h4 have r4: "\<exists>inp'. read_conf_while 1 ?cf ?e = read_conf_end 1 ?cf inp'"
    by blast
  from t4 h5 have r5: "\<exists>inp'. read_tile_conf_while 1 ?cf ?e = commit 1 ?cf inp'"
    by blast
  from t4 h6 have r6: "\<exists>inp'. read_bram_for 5 0 1 ?cf ?e = commit 1 ?cf inp'
       \<or> read_bram_for 5 0 1 ?cf ?e = at (conf_error ?cf ''hex bram value required'') inp'"
    by blast
  from r1 r2 r3 r4 r5 r6 show ?thesis by (intro conjI)
qed

subsection \<open>The names of a tile group\<close>

lemma blank_isspace: "blank c \<Longrightarrow> isspace c"
  by (auto simp: blank_def isspace_def)

lemma dropWhile_isspace_blank: "dropWhile isspace (dropWhile blank xs) = dropWhile isspace xs"
  by (induction xs) (auto simp: blank_isspace)

lemma fscanf_blank_s_none:
  assumes "buf inp = c # cs" and "\<not> blank c"
  shows "fscanf_blank_s inp = (None, inp)"
  using assms by (cases inp) (simp add: fscanf_blank_s_def conv_set_def scan_run_def Let_def)

lemma fscanf_blank_s_some:
  assumes "buf inp = c # cs" and "blank c" and "dropWhile isspace cs \<noteq> []"
  shows "fst (fscanf_blank_s inp) = Some (takeWhile nonspace (dropWhile isspace cs))"
    and "buf (snd (fscanf_blank_s inp)) = dropWhile nonspace (dropWhile isspace cs)"
proof -
  from assms(3) obtain d ds where d: "dropWhile isspace cs = d # ds"
    by (cases "dropWhile isspace cs") auto
  then have "\<not> isspace d" by (metis hd_dropWhile list.sel(1) list.distinct(1))
  then have ne: "takeWhile nonspace (dropWhile isspace cs) \<noteq> []"
    using d by (simp add: nonspace_def)
  have c: "isspace c" using assms(2) by (rule blank_isspace)
  show "fst (fscanf_blank_s inp) = Some (takeWhile nonspace (dropWhile isspace cs))"
    using assms(1,2) ne c
    by (simp add: fscanf_blank_s_def conv_set_def conv_s_def skip_space_def scan_run_def Let_def
        dropWhile_isspace_blank)
  show "buf (snd (fscanf_blank_s inp)) = dropWhile nonspace (dropWhile isspace cs)"
    using assms(1,2) ne c
    by (simp add: fscanf_blank_s_def conv_set_def conv_s_def skip_space_def scan_run_def Let_def
        dropWhile_isspace_blank)
qed

lemma fscanf_blank_s_end:
  assumes "buf inp = c # cs" and "blank c" and "dropWhile isspace cs = []"
  shows "fst (fscanf_blank_s inp) = None" and "buf (snd (fscanf_blank_s inp)) = []"
  using assms blank_isspace [OF assms(2)]
  by (simp_all add: fscanf_blank_s_def conv_set_def conv_s_def skip_space_def scan_run_def Let_def
      dropWhile_isspace_blank del: dropWhile_eq_Nil_conv)

text \<open>
  C9. In the loop of \<^verbatim>\<open>read_tile_group\<close>, let \<open>c\<close> be the character right after the previous
  name. If \<open>c\<close> is not a space or tab (a newline, say), the list of names ends there: nothing
  is read and the tile body follows. If \<open>c\<close> is a space or tab and any character that is
  not white space follows, then the next token, found after skipping white space of every
  kind, newlines too, is passed to \<^verbatim>\<open>on_tile\<close>, whatever it is, and the loop goes on after
  it. (If only white space follows up to the end, no name is read and the body is read at
  the end of the input.)
\<close>

theorem tile_group_names:
  assumes "ok \<noteq> 0" and "buf inp = c # cs"
  shows "(\<not> blank c \<longrightarrow> read_tile_group_while ok cf inp = read_tile_conf cf inp)
       \<and> (blank c \<and> (\<exists>d \<in> set cs. nonspace d) \<longrightarrow>
            read_tile_group_while ok cf inp =
              (case call cf (On_tile (cstr (takeWhile nonspace (dropWhile isspace cs)))) of
                 (ok', cf') \<Rightarrow> read_tile_group_while ok' cf' (snd (fscanf_blank_s inp)))
            \<and> buf (snd (fscanf_blank_s inp)) = dropWhile nonspace (dropWhile isspace cs))
       \<and> (blank c \<and> (\<forall>d \<in> set cs. isspace d) \<longrightarrow>
            read_tile_group_while ok cf inp = read_tile_conf cf (snd (fscanf_blank_s inp))
            \<and> buf (snd (fscanf_blank_s inp)) = [])"
proof -
  have stop: "\<not> blank c \<longrightarrow> read_tile_group_while ok cf inp = read_tile_conf cf inp"
    using assms
    by (subst read_tile_group_while.simps) (simp add: fscanf_blank_s_none)
  have more: "blank c \<and> (\<exists>d \<in> set cs. nonspace d) \<longrightarrow>
            read_tile_group_while ok cf inp =
              (case call cf (On_tile (cstr (takeWhile nonspace (dropWhile isspace cs)))) of
                 (ok', cf') \<Rightarrow> read_tile_group_while ok' cf' (snd (fscanf_blank_s inp)))
            \<and> buf (snd (fscanf_blank_s inp)) = dropWhile nonspace (dropWhile isspace cs)"
  proof (intro impI)
    assume h: "blank c \<and> (\<exists>d \<in> set cs. nonspace d)"
    then have "dropWhile isspace cs \<noteq> []"
      by (auto simp: nonspace_def)
    with h assms(2) have f: "fst (fscanf_blank_s inp)
        = Some (takeWhile nonspace (dropWhile isspace cs))"
      and b: "buf (snd (fscanf_blank_s inp)) = dropWhile nonspace (dropWhile isspace cs)"
      by (simp_all add: fscanf_blank_s_some)
    have "read_tile_group_while ok cf inp =
              (case call cf (On_tile (cstr (takeWhile nonspace (dropWhile isspace cs)))) of
                 (ok', cf') \<Rightarrow> read_tile_group_while ok' cf' (snd (fscanf_blank_s inp)))"
      using assms(1) f
      by (subst read_tile_group_while.simps) (simp add: case_prod_unfold)
    with b show "read_tile_group_while ok cf inp =
              (case call cf (On_tile (cstr (takeWhile nonspace (dropWhile isspace cs)))) of
                 (ok', cf') \<Rightarrow> read_tile_group_while ok' cf' (snd (fscanf_blank_s inp)))
            \<and> buf (snd (fscanf_blank_s inp)) = dropWhile nonspace (dropWhile isspace cs)"
      by (rule conjI [rotated])
  qed
  have last: "blank c \<and> (\<forall>d \<in> set cs. isspace d) \<longrightarrow>
            read_tile_group_while ok cf inp = read_tile_conf cf (snd (fscanf_blank_s inp))
            \<and> buf (snd (fscanf_blank_s inp)) = []"
  proof (intro impI)
    assume h: "blank c \<and> (\<forall>d \<in> set cs. isspace d)"
    then have "dropWhile isspace cs = []" by simp
    with h assms(2) have f: "fst (fscanf_blank_s inp) = None"
      and b: "buf (snd (fscanf_blank_s inp)) = []"
      by (simp_all add: fscanf_blank_s_end)
    have "read_tile_group_while ok cf inp = read_tile_conf cf (snd (fscanf_blank_s inp))"
      using assms(1) f
      by (subst read_tile_group_while.simps) (simp add: case_prod_unfold)
    with b show "read_tile_group_while ok cf inp = read_tile_conf cf (snd (fscanf_blank_s inp))
            \<and> buf (snd (fscanf_blank_s inp)) = []"
      by (rule conjI [rotated])
  qed
  from stop more last show ?thesis by (intro conjI)
qed

text \<open>After the name \<^verbatim>\<open>A\<close> of \<^verbatim>\<open>.tile_group A\<close>: a newline at once, a space and then the newline,
  and nothing but white space; then the two whole parses. With the space at the end of
  the line the keyword \<^verbatim>\<open>arc:\<close> and its two fields become tile names.\<close>

theorem tile_group_names_witness:
  "outcome (read_tile_group_while 1 (conf0 ok_action) (from_string (nl @ ''arc: x y''))) =
     (1, [], [(On_arc ''x'' ''y'', 1), (On_commit, 1)], [])
   \<and> outcome (read_tile_group_while 1 (conf0 ok_action)
        (from_string ('' '' @ nl @ ''arc: x y''))) =
     (1, [], [(On_tile ''arc:'', 1), (On_tile ''x'', 1), (On_tile ''y'', 1), (On_commit, 1)], [])
   \<and> outcome (read_tile_group_while 1 (conf0 ok_action) (from_string ('' '' @ nl))) =
     (1, [], [(On_commit, 1)], [])
   \<and> outcome (read_conf (conf0 ok_action) (from_string (''.tile_group A'' @ nl @ ''arc: x y''))) =
     (1, [], [(On_tile ''A'', 1), (On_arc ''x'' ''y'', 1), (On_commit, 1)], [])
   \<and> outcome (read_conf (conf0 ok_action) (from_string (''.tile_group A '' @ nl @ ''arc: x y''))) =
     (1, [], [(On_tile ''A'', 1), (On_tile ''arc:'', 1), (On_tile ''x'', 1), (On_tile ''y'', 1),
              (On_commit, 1)], [])"
proof -
  let ?cf = "conf0 ok_action"
  let ?i1 = "from_string (nl @ ''arc: x y'')"
  let ?i2 = "from_string ('' '' @ nl @ ''arc: x y'')"
  let ?i3 = "from_string ('' '' @ nl)"
  have one: "(1 :: int) \<noteq> 0" by simp
  have b1: "buf ?i1 = CHR 0x0A # ''arc: x y''" by (simp add: from_string_def nl_def)
  have b2: "buf ?i2 = CHR '' '' # (nl @ ''arc: x y'')" by (simp add: from_string_def)
  have b3: "buf ?i3 = CHR '' '' # nl" by (simp add: from_string_def)
  have h1: "\<not> blank (CHR 0x0A)" by code_simp
  have h2: "blank CHR '' '' \<and> (\<exists>d \<in> set (nl @ ''arc: x y''). nonspace d)" by code_simp
  have h3: "blank CHR '' '' \<and> (\<forall>d \<in> set nl. isspace d)" by code_simp
  from tile_group_names [OF one b1, of ?cf] h1
  have e1: "read_tile_group_while 1 ?cf ?i1 = read_tile_conf ?cf ?i1" by blast
  have v1: "outcome (read_tile_conf ?cf ?i1) =
     (1, [], [(On_arc ''x'' ''y'', 1), (On_commit, 1)], [])" by code_simp
  from tile_group_names [OF one b2, of ?cf] h2
  have e2: "read_tile_group_while 1 ?cf ?i2 =
      (case call ?cf (On_tile (cstr (takeWhile nonspace (dropWhile isspace (nl @ ''arc: x y''))))) of
         (ok', cf') \<Rightarrow> read_tile_group_while ok' cf' (snd (fscanf_blank_s ?i2)))" by blast
  have v2: "outcome
      (case call ?cf (On_tile (cstr (takeWhile nonspace (dropWhile isspace (nl @ ''arc: x y''))))) of
         (ok', cf') \<Rightarrow> read_tile_group_while ok' cf' (snd (fscanf_blank_s ?i2))) =
     (1, [], [(On_tile ''arc:'', 1), (On_tile ''x'', 1), (On_tile ''y'', 1), (On_commit, 1)], [])"
    by code_simp
  from tile_group_names [OF one b3, of ?cf] h3
  have e3: "read_tile_group_while 1 ?cf ?i3 = read_tile_conf ?cf (snd (fscanf_blank_s ?i3))"
    by blast
  have v3: "outcome (read_tile_conf ?cf (snd (fscanf_blank_s ?i3))) =
     (1, [], [(On_commit, 1)], [])" by code_simp
  have r1: "outcome (read_tile_group_while 1 ?cf ?i1) =
     (1, [], [(On_arc ''x'' ''y'', 1), (On_commit, 1)], [])" by (simp only: e1 v1)
  have r2: "outcome (read_tile_group_while 1 ?cf ?i2) =
     (1, [], [(On_tile ''arc:'', 1), (On_tile ''x'', 1), (On_tile ''y'', 1), (On_commit, 1)], [])"
    by (simp only: e2 v2)
  have r3: "outcome (read_tile_group_while 1 ?cf ?i3) = (1, [], [(On_commit, 1)], [])"
    by (simp only: e3 v3)
  have r4: "outcome (read_conf ?cf (from_string (''.tile_group A'' @ nl @ ''arc: x y''))) =
     (1, [], [(On_tile ''A'', 1), (On_arc ''x'' ''y'', 1), (On_commit, 1)], [])" by code_simp
  have r5: "outcome (read_conf ?cf (from_string (''.tile_group A '' @ nl @ ''arc: x y''))) =
     (1, [], [(On_tile ''A'', 1), (On_tile ''arc:'', 1), (On_tile ''x'', 1), (On_tile ''y'', 1),
              (On_commit, 1)], [])" by code_simp
  from r1 r2 r3 r4 r5 show ?thesis by (intro conjI)
qed

subsection \<open>Single steps of the readers\<close>

text \<open>The equations by which the loops are run on an input whose beginning is known.\<close>

lemma skip_space_buf:
  "r \<noteq> [] \<Longrightarrow> dropWhile isspace b = r \<Longrightarrow> skip_space (s\<lparr>buf := b\<rparr>) = s\<lparr>buf := r\<rparr>"
  by (cases s) (auto simp: skip_space_def scan_run_def Let_def)

lemma read_conf_while_step:
  assumes "ok \<noteq> 0" and "next_entry inp = (1, inp1)" and "fscanf_s15 inp1 = (Some verb, inp2)"
  shows "read_conf_while ok cf inp =
    (case conf_entry verb cf inp2 of (ok', cf', inp3) \<Rightarrow> read_conf_while ok' cf' inp3)"
  using assms by (subst read_conf_while.simps) simp

lemma read_conf_while_stop:
  assumes "ok \<noteq> 0" and "next_entry inp = (0, inp1)"
  shows "read_conf_while ok cf inp = read_conf_end ok cf inp1"
  using assms by (subst read_conf_while.simps) simp

lemma read_tile_conf_while_step:
  assumes "ok \<noteq> 0" and "next_record inp = (1, inp1)" and "fscanf_s15 inp1 = (Some type, inp2)"
  shows "read_tile_conf_while ok cf inp =
    (case tile_record type cf inp2 of (ok', cf', inp3) \<Rightarrow> read_tile_conf_while ok' cf' inp3)"
  using assms by (subst read_tile_conf_while.simps) simp

lemma read_tile_conf_while_stop:
  assumes "ok \<noteq> 0" and "next_record inp = (0, inp1)"
  shows "read_tile_conf_while ok cf inp = at (call cf On_commit) inp1"
  using assms by (subst read_tile_conf_while.simps) (simp add: commit_def)

lemma read_tile_group_while_step:
  assumes "ok \<noteq> 0" and "fscanf_blank_s inp = (Some name, inp1)"
  shows "read_tile_group_while ok cf inp =
    read_tile_group_while (fst (call cf (On_tile (cstr name))))
      (snd (call cf (On_tile (cstr name)))) inp1"
  using assms by (subst read_tile_group_while.simps) (simp add: case_prod_unfold)

lemma read_tile_group_while_stop:
  assumes "ok \<noteq> 0" and "fscanf_blank_s inp = (None, inp1)"
  shows "read_tile_group_while ok cf inp = read_tile_conf cf inp1"
  using assms by (subst read_tile_group_while.simps) simp

lemma read_bram_for_step:
  assumes "ok \<noteq> 0" and "next_record inp = (1, inp1)" and "fscanf_x inp1 = (Some val, inp2)"
  shows "read_bram_for index i ok cf inp =
    read_bram_for index (i + 1) (fst (call cf (On_data index i val)))
      (snd (call cf (On_data index i val))) inp2"
  using assms by (subst read_bram_for.simps) (simp add: case_prod_unfold)

lemma read_bram_for_stop:
  assumes "ok \<noteq> 0" and "next_record inp = (0, inp1)"
  shows "read_bram_for index i ok cf inp = at (call cf On_commit) inp1"
  using assms by (subst read_bram_for.simps) (simp add: commit_def)

text \<open>A call through an action interface whose callbacks all succeed.\<close>

lemma call_succeeds:
  assumes "\<forall>ev c. fst (invoke (action cf) ev c) \<noteq> 0"
  shows "fst (call cf ev) \<noteq> 0"
    and "\<forall>e c. fst (invoke (action (snd (call cf ev))) e c) \<noteq> 0"
    and "map fst (calls (snd (call cf ev))) = map fst (calls cf) @ [ev]"
    and "error (snd (call cf ev)) = error cf"
    and "error_size (snd (call cf ev)) = error_size cf"
  using assms by (simp_all add: call_def case_prod_unfold)

lemmas scan_defs = fscanf_blank_s_def fscanf_blank_s_blank_s_def fscanf_s15_def conv_s_width_def
  conv_set_def conv_s_def skip_space_def scan_run_def Let_def blank_def isspace_def nonspace_def
  nl_def

lemma read_arc_some:
  "fscanf_blank_s_blank_s inp = (Some (sink, source), inp1) \<Longrightarrow>
     read_arc cf inp = at (call cf (On_arc (cstr sink) (cstr source))) inp1"
  by (simp add: read_arc_def)

lemma cstr_plain: "CHR 0x00 \<notin> set t \<Longrightarrow> cstr t = t"
  by (auto simp: cstr_def)

subsection \<open>A tile group\<close>

text \<open>
  C3. The input is \<^verbatim>\<open>.tile_group A B C\<close>, a newline, \<^verbatim>\<open>arc: x y\<close>, a newline, a \<^verbatim>\<open>.\<close> and
  anything after it, on any stream and in any context whose callbacks all succeed. The
  first pass of \<^verbatim>\<open>read_conf\<close> runs \<^verbatim>\<open>read_tile_group\<close> on what follows the verb, and that
  call makes exactly the calls \<^verbatim>\<open>on_tile("A")\<close>, \<^verbatim>\<open>on_tile("B")\<close>, \<^verbatim>\<open>on_tile("C")\<close>,
  \<^verbatim>\<open>on_arc("x","y")\<close>, \<^verbatim>\<open>on_commit()\<close>, in this order, with one commit; it succeeds, writes
  no error, and leaves the stream at the \<^verbatim>\<open>.\<close> of the next verb, where the parse goes on.
\<close>

theorem tile_group_single_commit:
  assumes "\<forall>ev c. fst (invoke (action cf) ev c) \<noteq> 0"
  shows "fst (read_tile_group cf
            (s\<lparr>buf := '' A B C'' @ nl @ ''arc: x y'' @ nl @ ''.'' @ rest\<rparr>)) \<noteq> 0
       \<and> map fst (calls (fst (snd (read_tile_group cf
            (s\<lparr>buf := '' A B C'' @ nl @ ''arc: x y'' @ nl @ ''.'' @ rest\<rparr>))))) =
          map fst (calls cf) @
            [On_tile ''A'', On_tile ''B'', On_tile ''C'', On_arc ''x'' ''y'', On_commit]
       \<and> error (fst (snd (read_tile_group cf
            (s\<lparr>buf := '' A B C'' @ nl @ ''arc: x y'' @ nl @ ''.'' @ rest\<rparr>)))) = error cf
       \<and> snd (snd (read_tile_group cf
            (s\<lparr>buf := '' A B C'' @ nl @ ''arc: x y'' @ nl @ ''.'' @ rest\<rparr>))) =
          s\<lparr>buf := ''.'' @ rest\<rparr>
       \<and> read_conf cf
            (s\<lparr>buf := ''.tile_group A B C'' @ nl @ ''arc: x y'' @ nl @ ''.'' @ rest\<rparr>) =
          (case read_tile_group cf
                  (s\<lparr>buf := '' A B C'' @ nl @ ''arc: x y'' @ nl @ ''.'' @ rest\<rparr>) of
             (ok', cf', inp') \<Rightarrow> read_conf_while ok' cf' inp')"
proof -
  let ?t = "nl @ ''arc: x y'' @ nl @ ''.'' @ rest"
  define itop where "itop = s\<lparr>buf := ''.tile_group A B C'' @ ?t\<rparr>"
  define i0 where "i0 = s\<lparr>buf := '' A B C'' @ ?t\<rparr>"
  define i1 where "i1 = s\<lparr>buf := '' B C'' @ ?t\<rparr>"
  define i2 where "i2 = s\<lparr>buf := '' C'' @ ?t\<rparr>"
  define i3 where "i3 = s\<lparr>buf := ?t\<rparr>"
  define i4 where "i4 = s\<lparr>buf := ''arc: x y'' @ nl @ ''.'' @ rest\<rparr>"
  define i5 where "i5 = s\<lparr>buf := '' x y'' @ nl @ ''.'' @ rest\<rparr>"
  define i6 where "i6 = s\<lparr>buf := nl @ ''.'' @ rest\<rparr>"
  define i7 where "i7 = s\<lparr>buf := ''.'' @ rest\<rparr>"
  define cf1 where "cf1 = snd (call cf (On_tile ''A''))"
  define cf2 where "cf2 = snd (call cf1 (On_tile ''B''))"
  define cf3 where "cf3 = snd (call cf2 (On_tile ''C''))"
  define cf4 where "cf4 = snd (call cf3 (On_arc ''x'' ''y''))"
  define cf5 where "cf5 = snd (call cf4 On_commit)"
  note c0 = call_succeeds [OF assms]
  note c1 = call_succeeds [OF c0(2) [of "On_tile ''A''", folded cf1_def]]
  note c2 = call_succeeds [OF c1(2) [of "On_tile ''B''", folded cf2_def]]
  note c3 = call_succeeds [OF c2(2) [of "On_tile ''C''", folded cf3_def]]
  note c4 = call_succeeds [OF c3(2) [of "On_arc ''x'' ''y''", folded cf4_def]]
  have s0: "fscanf_blank_s i0 = (Some ''A'', i1)"
    by (simp add: i0_def i1_def scan_defs)
  have s1: "fscanf_blank_s i1 = (Some ''B'', i2)"
    by (simp add: i1_def i2_def scan_defs)
  have s2: "fscanf_blank_s i2 = (Some ''C'', i3)"
    by (simp add: i2_def i3_def scan_defs)
  have s3: "fscanf_blank_s i3 = (None, i3)"
    by (simp add: i3_def scan_defs)
  have s4: "next_record i3 = (1, i4)"
    using next_record_at [of i3 "CHR ''a''" "''rc: x y'' @ nl @ ''.'' @ rest"]
    by (simp add: i3_def i4_def scan_defs)
  have s5: "fscanf_s15 i4 = (Some ''arc:'', i5)"
    by (simp add: i4_def i5_def scan_defs)
  have s6: "fscanf_blank_s_blank_s i5 = (Some (''x'', ''y''), i6)"
    by (simp add: i5_def i6_def scan_defs)
  have s7: "next_record i6 = (0, i7)"
    using next_record_at [of i6 "CHR ''.''" rest]
    by (simp add: i6_def i7_def scan_defs)
  have s8: "next_entry itop = (1, itop)"
    using next_entry_at [of itop "CHR ''.''" "''tile_group A B C'' @ ?t"]
    by (simp add: itop_def scan_defs)
  have s9: "fscanf_s15 itop = (Some ''.tile_group'', i0)"
    by (simp add: itop_def i0_def scan_defs)
  have names: "read_tile_group cf i0 = read_tile_conf cf3 i3"
    using c0(1) [of "On_tile ''A''"] c1(1) [of "On_tile ''B''"] c2(1) [of "On_tile ''C''"]
    by (simp add: read_tile_group_def s0 case_prod_unfold cstr_plain cf1_def [symmetric]
        read_tile_group_while_step [OF _ s1] cf2_def [symmetric]
        read_tile_group_while_step [OF _ s2] cf3_def [symmetric]
        read_tile_group_while_stop [OF _ s3])
  have rec: "tile_record ''arc:'' cf3 i5 = (fst (call cf3 (On_arc ''x'' ''y'')), cf4, i6)"
    by (simp add: tile_record_def match_def read_arc_some [OF s6] cstr_plain at_def cf4_def)
  have body: "read_tile_conf cf3 i3 = (fst (call cf4 On_commit), cf5, i7)"
    using c3(1) [of "On_arc ''x'' ''y''"]
    by (simp add: read_tile_conf_def read_tile_conf_while_step [OF _ s4 s5] rec
        read_tile_conf_while_stop [OF _ s7] at_def cf5_def)
  have r: "read_tile_group cf i0 = (fst (call cf4 On_commit), cf5, i7)"
    by (simp only: names body)
  have tr: "map fst (calls cf5) = map fst (calls cf) @
      [On_tile ''A'', On_tile ''B'', On_tile ''C'', On_arc ''x'' ''y'', On_commit]"
    using c0(3) [of "On_tile ''A''"] c1(3) [of "On_tile ''B''"] c2(3) [of "On_tile ''C''"]
      c3(3) [of "On_arc ''x'' ''y''"] c4(3) [of On_commit]
    unfolding cf1_def [symmetric] cf2_def [symmetric] cf3_def [symmetric] cf4_def [symmetric]
      cf5_def [symmetric]
    by simp
  have er: "error cf5 = error cf"
    using c0(4) [of "On_tile ''A''"] c1(4) [of "On_tile ''B''"] c2(4) [of "On_tile ''C''"]
      c3(4) [of "On_arc ''x'' ''y''"] c4(4) [of On_commit]
    unfolding cf1_def [symmetric] cf2_def [symmetric] cf3_def [symmetric] cf4_def [symmetric]
      cf5_def [symmetric]
    by simp
  have top: "read_conf cf itop =
      (case read_tile_group cf i0 of (ok', cf', inp') \<Rightarrow> read_conf_while ok' cf' inp')"
    by (simp add: read_conf_def read_conf_while_step [OF _ s8 s9] conf_entry_def match_def)
  have "fst (read_tile_group cf i0) \<noteq> 0
       \<and> map fst (calls (fst (snd (read_tile_group cf i0)))) =
          map fst (calls cf) @
            [On_tile ''A'', On_tile ''B'', On_tile ''C'', On_arc ''x'' ''y'', On_commit]
       \<and> error (fst (snd (read_tile_group cf i0))) = error cf
       \<and> snd (snd (read_tile_group cf i0)) = i7
       \<and> read_conf cf itop =
          (case read_tile_group cf i0 of (ok', cf', inp') \<Rightarrow> read_conf_while ok' cf' inp')"
    using tr er top c4(1) [of On_commit] by (simp add: r)
  then show ?thesis unfolding itop_def i0_def i7_def .
qed

lemma ok_action_succeeds: "\<forall>ev c. fst (invoke (action (conf0 ok_action)) ev c) \<noteq> 0"
proof (intro allI)
  fix ev :: event and c :: unit
  show "fst (invoke (action (conf0 ok_action)) ev c) \<noteq> 0"
    by (cases ev) (simp_all add: conf0_def ok_action_def)
qed

lemma from_string_buf: "(from_string a)\<lparr>buf := b\<rparr> = from_string b"
  by (simp add: from_string_def)

text \<open>The tile group followed by \<^verbatim>\<open>.device foo\<close>, with callbacks that succeed: the five
  calls of the group, and the whole parse.\<close>

theorem tile_group_single_commit_witness:
  "fst (read_tile_group (conf0 ok_action)
     (from_string ('' A B C'' @ nl @ ''arc: x y'' @ nl @ ''.'' @ ''device foo''))) \<noteq> 0
   \<and> map fst (calls (fst (snd (read_tile_group (conf0 ok_action)
        (from_string ('' A B C'' @ nl @ ''arc: x y'' @ nl @ ''.'' @ ''device foo''))))))
      = [On_tile ''A'', On_tile ''B'', On_tile ''C'', On_arc ''x'' ''y'', On_commit]
   \<and> outcome (read_conf (conf0 ok_action)
        (from_string (''.tile_group A B C'' @ nl @ ''arc: x y'' @ nl @ ''.device foo''))) =
      (1, [], [(On_tile ''A'', 1), (On_tile ''B'', 1), (On_tile ''C'', 1),
               (On_arc ''x'' ''y'', 1), (On_commit, 1), (On_device ''foo'', 1)], [])"
proof -
  note t = tile_group_single_commit [OF ok_action_succeeds,
      where s = "from_string []" and rest = "''device foo''",
      unfolded from_string_buf conf0_calls]
  from t have r1: "fst (read_tile_group (conf0 ok_action)
     (from_string ('' A B C'' @ nl @ ''arc: x y'' @ nl @ ''.'' @ ''device foo''))) \<noteq> 0"
    by (rule conjunct1)
  from t have r2: "map fst (calls (fst (snd (read_tile_group (conf0 ok_action)
        (from_string ('' A B C'' @ nl @ ''arc: x y'' @ nl @ ''.'' @ ''device foo''))))))
      = [] @ [On_tile ''A'', On_tile ''B'', On_tile ''C'', On_arc ''x'' ''y'', On_commit]"
    by (elim conjE) (simp only: list.map)
  have r3: "outcome (read_conf (conf0 ok_action)
        (from_string (''.tile_group A B C'' @ nl @ ''arc: x y'' @ nl @ ''.device foo''))) =
      (1, [], [(On_tile ''A'', 1), (On_tile ''B'', 1), (On_tile ''C'', 1),
               (On_arc ''x'' ''y'', 1), (On_commit, 1), (On_device ''foo'', 1)], [])"
    by code_simp
  from r1 r2 r3 show ?thesis by (simp only: append_Nil simp_thms)
qed

subsection \<open>A block of block-RAM data\<close>

lemma data_positions_append [simp]:
  "data_positions (xs @ ys) = data_positions xs @ data_positions ys"
  by (simp add: data_positions_def)

lemma calls_call: "calls (snd (call cf ev)) = calls cf @ [(ev, fst (call cf ev))]"
  by (simp add: call_def case_prod_unfold)

lemma calls_conf_error: "calls (snd (conf_error cf m)) = calls cf"
  by (simp add: conf_error_def)

lemma counter_from:
  "(i :: 64 word) # map (\<lambda>k. i + 1 + of_nat k) [0..<n] = map (\<lambda>k. i + of_nat k) [0..<Suc n]"
proof -
  have "[0..<Suc n] = 0 # map Suc [0..<n]"
    by (simp add: map_Suc_upt upt_conv_Cons del: upt_Suc)
  then have "map (\<lambda>k. i + of_nat k) [0..<Suc n] = i # map (\<lambda>k. i + of_nat (Suc k)) [0..<n]"
    by (simp add: comp_def del: upt_Suc)
  then show ?thesis by (simp add: add.assoc del: upt_Suc)
qed

lemma read_bram_for_positions:
  "\<exists>n. data_positions (calls (fst (snd (read_bram_for index i ok cf inp)))) =
        data_positions (calls cf) @ map (\<lambda>k. i + of_nat k) [0..<n]"
proof (induction index i ok cf inp rule: read_bram_for.induct)
  case (1 index i ok cf inp)
  obtain nr inp1 where nr: "next_record inp = (nr, inp1)" by (cases "next_record inp")
  obtain x inp2 where x: "fscanf_x inp1 = (x, inp2)" by (cases "fscanf_x inp1")
  show ?case
  proof (cases "ok \<noteq> 0 \<and> nr \<noteq> 0 \<and> x \<noteq> None")
    case False
    then have "data_positions (calls (fst (snd (read_bram_for index i ok cf inp)))) =
        data_positions (calls cf) @ map (\<lambda>k. i + of_nat k) [0..<0]"
      using nr x
      by (subst read_bram_for.simps)
        (auto simp: commit_def at_def calls_call calls_conf_error data_positions_def)
    then show ?thesis by blast
  next
    case True
    then obtain v where t: "x = Some v" by auto
    obtain ok' cf' where r: "call cf (On_data index i v) = (ok', cf')"
      by (cases "call cf (On_data index i v)")
    from r have c: "calls cf' = calls cf @ [(On_data index i v, ok')]"
      using calls_call [of cf "On_data index i v"] by simp
    from True "1.IH" [OF _ nr [symmetric] _ x [symmetric] t r [symmetric]]
    obtain n where "data_positions (calls (fst (snd (read_bram_for index (i + 1) ok' cf' inp2)))) =
        data_positions (calls cf') @ map (\<lambda>k. i + 1 + of_nat k) [0..<n]"
      by auto
    then have "data_positions (calls (fst (snd (read_bram_for index (i + 1) ok' cf' inp2)))) =
        data_positions (calls cf) @ map (\<lambda>k. i + of_nat k) [0..<Suc n]"
      using counter_from [of i n] by (simp add: c data_positions_def del: upt_Suc)
    moreover have "read_bram_for index i ok cf inp = read_bram_for index (i + 1) ok' cf' inp2"
      using True nr x t r by (subst read_bram_for.simps) simp
    ultimately show ?thesis by metis
  qed
qed

lemma read_bram_positions:
  "\<exists>n. data_positions (calls (fst (snd (read_bram cf inp)))) =
        data_positions (calls cf) @ map of_nat [0..<n]"
proof -
  obtain x inp1 where x: "fscanf_blank_u inp = (x, inp1)" by (cases "fscanf_blank_u inp")
  show ?thesis
  proof (cases x)
    case None
    with x have "data_positions (calls (fst (snd (read_bram cf inp)))) =
        data_positions (calls cf) @ map of_nat [0..<0]"
      by (simp add: read_bram_def at_def calls_conf_error)
    then show ?thesis by blast
  next
    case (Some index)
    obtain ok cf1 where c: "call cf (On_bram index) = (ok, cf1)"
      by (cases "call cf (On_bram index)")
    then have c1: "calls cf1 = calls cf @ [(On_bram index, ok)]"
      using calls_call [of cf "On_bram index"] by simp
    from read_bram_for_positions [of index 0 ok cf1 inp1]
    obtain n where "data_positions (calls (fst (snd (read_bram_for index 0 ok cf1 inp1)))) =
        data_positions (calls cf1) @ map (\<lambda>k. 0 + of_nat k) [0..<n]"
      by blast
    then have "data_positions (calls (fst (snd (read_bram cf inp)))) =
        data_positions (calls cf) @ map of_nat [0..<n]"
      using x Some c by (simp add: read_bram_def c1 data_positions_def)
    then show ?thesis by blast
  qed
qed

lemmas num_defs = fscanf_blank_u_def fscanf_x_def conv_uint_def accept_def strtoul_def
  digits_value_def digit_of_def is_digit_def

text \<open>
  C4. The input is \<^verbatim>\<open>.bram_init 5\<close> and the lines \<^verbatim>\<open>0a\<close>, \<^verbatim>\<open>1b\<close>, \<^verbatim>\<open>2c\<close>, then the end of a
  stream without read error, in any context whose callbacks all succeed. \<^verbatim>\<open>read_conf\<close>
  succeeds, reads all the input, writes no error and makes exactly the calls
  \<^verbatim>\<open>on_bram(5)\<close>, \<^verbatim>\<open>on_data(5,0,0x0a)\<close>, \<^verbatim>\<open>on_data(5,1,0x1b)\<close>, \<^verbatim>\<open>on_data(5,2,0x2c)\<close>,
  \<^verbatim>\<open>on_commit()\<close>. And in every block, whatever the input and the callbacks: the positions
  passed to \<^verbatim>\<open>on_data\<close> are 0, 1, 2, ... in the order of the calls (from the loop's counter
  \<open>i\<close> on, one more after each value read).
\<close>

theorem bram_block_positions:
  assumes "\<forall>ev c. fst (invoke (action cf) ev c) \<noteq> 0" and "\<not> fault s" and "\<not> ferr s"
  shows "fst (read_conf cf
            (s\<lparr>buf := ''.bram_init 5'' @ nl @ ''0a'' @ nl @ ''1b'' @ nl @ ''2c'' @ nl\<rparr>)) \<noteq> 0
       \<and> map fst (calls (fst (snd (read_conf cf
            (s\<lparr>buf := ''.bram_init 5'' @ nl @ ''0a'' @ nl @ ''1b'' @ nl @ ''2c'' @ nl\<rparr>))))) =
          map fst (calls cf) @
            [On_bram 5, On_data 5 0 0x0a, On_data 5 1 0x1b, On_data 5 2 0x2c, On_commit]
       \<and> error (fst (snd (read_conf cf
            (s\<lparr>buf := ''.bram_init 5'' @ nl @ ''0a'' @ nl @ ''1b'' @ nl @ ''2c'' @ nl\<rparr>)))) =
          error cf
       \<and> buf (snd (snd (read_conf cf
            (s\<lparr>buf := ''.bram_init 5'' @ nl @ ''0a'' @ nl @ ''1b'' @ nl @ ''2c'' @ nl\<rparr>)))) = []
       \<and> (\<exists>n. data_positions (calls (fst (snd (read_bram_for index i ok cf2 inp)))) =
              data_positions (calls cf2) @ map (\<lambda>k. i + of_nat k) [0..<n])
       \<and> (\<exists>n. data_positions (calls (fst (snd (read_bram cf2 inp)))) =
              data_positions (calls cf2) @ map of_nat [0..<n])"
proof -
  define itop where "itop = s\<lparr>buf := ''.bram_init 5'' @ nl @ ''0a'' @ nl @ ''1b'' @ nl @ ''2c'' @ nl\<rparr>"
  define i0 where "i0 = s\<lparr>buf := '' 5'' @ nl @ ''0a'' @ nl @ ''1b'' @ nl @ ''2c'' @ nl\<rparr>"
  define i1 where "i1 = s\<lparr>buf := nl @ ''0a'' @ nl @ ''1b'' @ nl @ ''2c'' @ nl\<rparr>"
  define i2 where "i2 = s\<lparr>buf := ''0a'' @ nl @ ''1b'' @ nl @ ''2c'' @ nl\<rparr>"
  define i3 where "i3 = s\<lparr>buf := nl @ ''1b'' @ nl @ ''2c'' @ nl\<rparr>"
  define i4 where "i4 = s\<lparr>buf := ''1b'' @ nl @ ''2c'' @ nl\<rparr>"
  define i5 where "i5 = s\<lparr>buf := nl @ ''2c'' @ nl\<rparr>"
  define i6 where "i6 = s\<lparr>buf := ''2c'' @ nl\<rparr>"
  define i7 where "i7 = s\<lparr>buf := nl\<rparr>"
  define i8 where "i8 = s\<lparr>buf := []\<rparr>"
  define cf1 where "cf1 = snd (call cf (On_bram 5))"
  define cf2' where "cf2' = snd (call cf1 (On_data 5 0 0x0a))"
  define cf3 where "cf3 = snd (call cf2' (On_data 5 1 0x1b))"
  define cf4 where "cf4 = snd (call cf3 (On_data 5 2 0x2c))"
  define cf5 where "cf5 = snd (call cf4 On_commit)"
  note c0 = call_succeeds [OF assms(1)]
  note c1 = call_succeeds [OF c0(2) [of "On_bram 5", folded cf1_def]]
  note c2 = call_succeeds [OF c1(2) [of "On_data 5 0 0x0a", folded cf2'_def]]
  note c3 = call_succeeds [OF c2(2) [of "On_data 5 1 0x1b", folded cf3_def]]
  note c4 = call_succeeds [OF c3(2) [of "On_data 5 2 0x2c", folded cf4_def]]
  have s8: "next_entry itop = (1, itop)"
    using next_entry_at [of itop "CHR ''.''"
        "''bram_init 5'' @ nl @ ''0a'' @ nl @ ''1b'' @ nl @ ''2c'' @ nl"]
    by (simp add: itop_def scan_defs)
  have s9: "fscanf_s15 itop = (Some ''.bram_init'', i0)"
    by (simp add: itop_def i0_def scan_defs)
  have s0: "fscanf_blank_u i0 = (Some 5, i1)"
    by (simp add: i0_def i1_def scan_defs num_defs)
  have n1: "next_record i1 = (1, i2)"
    using next_record_at [of i1 "CHR ''0''" "''a'' @ nl @ ''1b'' @ nl @ ''2c'' @ nl"]
    by (simp add: i1_def i2_def scan_defs)
  have x1: "fscanf_x i2 = (Some 0x0a, i3)"
    by (simp add: i2_def i3_def scan_defs num_defs)
  have n2: "next_record i3 = (1, i4)"
    using next_record_at [of i3 "CHR ''1''" "''b'' @ nl @ ''2c'' @ nl"]
    by (simp add: i3_def i4_def scan_defs)
  have x2: "fscanf_x i4 = (Some 0x1b, i5)"
    by (simp add: i4_def i5_def scan_defs num_defs)
  have n3: "next_record i5 = (1, i6)"
    using next_record_at [of i5 "CHR ''2''" "''c'' @ nl"]
    by (simp add: i5_def i6_def scan_defs)
  have x3: "fscanf_x i6 = (Some 0x2c, i7)"
    by (simp add: i6_def i7_def scan_defs num_defs)
  have n4: "next_record i7 = (0, i8)"
    using next_record_end [of i7] assms(2)
    by (simp add: i7_def i8_def scan_defs)
  have n5: "next_entry i8 = (0, i8)"
    using next_entry_end [of i8] assms(2)
    by (simp add: i8_def scan_defs)
  have bram: "read_bram cf i0 = (fst (call cf4 On_commit), cf5, i8)"
    using c0(1) [of "On_bram 5"] c1(1) [of "On_data 5 0 0x0a"] c2(1) [of "On_data 5 1 0x1b"]
      c3(1) [of "On_data 5 2 0x2c"]
    by (simp add: read_bram_def s0 case_prod_unfold cf1_def [symmetric]
        read_bram_for_step [OF _ n1 x1] cf2'_def [symmetric]
        read_bram_for_step [OF _ n2 x2] cf3_def [symmetric]
        read_bram_for_step [OF _ n3 x3] cf4_def [symmetric]
        read_bram_for_stop [OF _ n4] at_def cf5_def [symmetric])
  have fe: "\<not> ferr i8" using assms(3) by (simp add: i8_def)
  have top: "read_conf cf itop = (fst (call cf4 On_commit), cf5, i8)"
    using c4(1) [of On_commit] fe
    by (simp add: read_conf_def read_conf_while_step [OF _ s8 s9] conf_entry_def match_def bram
        read_conf_while_stop [OF _ n5] read_conf_end_def)
  have tr: "map fst (calls cf5) = map fst (calls cf) @
      [On_bram 5, On_data 5 0 0x0a, On_data 5 1 0x1b, On_data 5 2 0x2c, On_commit]"
    using c0(3) [of "On_bram 5"] c1(3) [of "On_data 5 0 0x0a"] c2(3) [of "On_data 5 1 0x1b"]
      c3(3) [of "On_data 5 2 0x2c"] c4(3) [of On_commit]
    unfolding cf1_def [symmetric] cf2'_def [symmetric] cf3_def [symmetric] cf4_def [symmetric]
      cf5_def [symmetric]
    by simp
  have er: "error cf5 = error cf"
    using c0(4) [of "On_bram 5"] c1(4) [of "On_data 5 0 0x0a"] c2(4) [of "On_data 5 1 0x1b"]
      c3(4) [of "On_data 5 2 0x2c"] c4(4) [of On_commit]
    unfolding cf1_def [symmetric] cf2'_def [symmetric] cf3_def [symmetric] cf4_def [symmetric]
      cf5_def [symmetric]
    by simp
  have "fst (read_conf cf itop) \<noteq> 0
       \<and> map fst (calls (fst (snd (read_conf cf itop)))) =
          map fst (calls cf) @
            [On_bram 5, On_data 5 0 0x0a, On_data 5 1 0x1b, On_data 5 2 0x2c, On_commit]
       \<and> error (fst (snd (read_conf cf itop))) = error cf
       \<and> buf (snd (snd (read_conf cf itop))) = []"
    using tr er c4(1) [of On_commit] by (simp add: top i8_def)
  then show ?thesis
    using read_bram_for_positions [of index i ok cf2 inp] read_bram_positions [of cf2 inp]
    unfolding itop_def by blast
qed

lemma from_string_flags: "\<not> fault (from_string t)" "\<not> ferr (from_string t)"
  by (simp_all add: from_string_def)

text \<open>The block with callbacks that succeed, with and without a newline after the last
  value, and the positions of a block of two values.\<close>

theorem bram_block_positions_witness:
  "fst (read_conf (conf0 ok_action)
     (from_string (''.bram_init 5'' @ nl @ ''0a'' @ nl @ ''1b'' @ nl @ ''2c'' @ nl))) \<noteq> 0
   \<and> map fst (calls (fst (snd (read_conf (conf0 ok_action)
        (from_string (''.bram_init 5'' @ nl @ ''0a'' @ nl @ ''1b'' @ nl @ ''2c'' @ nl))))))
      = [On_bram 5, On_data 5 0 0x0a, On_data 5 1 0x1b, On_data 5 2 0x2c, On_commit]
   \<and> (\<exists>n. data_positions (calls (fst (snd (read_bram (conf0 ok_action)
          (from_string ('' 7'' @ nl @ ''0a'' @ nl @ ''1b'')))))) = map of_nat [0..<n])
   \<and> outcome (read_conf (conf0 ok_action)
        (from_string (''.bram_init 5'' @ nl @ ''0a'' @ nl @ ''1b'' @ nl @ ''2c''))) =
      (1, [], [(On_bram 5, 1), (On_data 5 0 0x0a, 1), (On_data 5 1 0x1b, 1),
               (On_data 5 2 0x2c, 1), (On_commit, 1)], [])
   \<and> data_positions (calls (fst (snd (read_bram (conf0 ok_action)
          (from_string ('' 7'' @ nl @ ''0a'' @ nl @ ''1b'')))))) = [0, 1]"
proof -
  note t = bram_block_positions [OF ok_action_succeeds
      from_string_flags(1) [of "[]"] from_string_flags(2) [of "[]"],
      where ?cf2.0 = "conf0 ok_action" and index = 5 and i = 0 and ok = 1
        and inp = "from_string ('' 7'' @ nl @ ''0a'' @ nl @ ''1b'')",
      unfolded from_string_buf conf0_calls]
  from t have r1: "fst (read_conf (conf0 ok_action)
     (from_string (''.bram_init 5'' @ nl @ ''0a'' @ nl @ ''1b'' @ nl @ ''2c'' @ nl))) \<noteq> 0"
    by (rule conjunct1)
  from t have r2: "map fst (calls (fst (snd (read_conf (conf0 ok_action)
        (from_string (''.bram_init 5'' @ nl @ ''0a'' @ nl @ ''1b'' @ nl @ ''2c'' @ nl))))))
      = [] @ [On_bram 5, On_data 5 0 0x0a, On_data 5 1 0x1b, On_data 5 2 0x2c, On_commit]"
    by (elim conjE) (simp only: list.map)
  from t have r3: "\<exists>n. data_positions (calls (fst (snd (read_bram (conf0 ok_action)
          (from_string ('' 7'' @ nl @ ''0a'' @ nl @ ''1b'')))))) =
        data_positions [] @ map of_nat [0..<n]"
    by (elim conjE)
  have r4: "outcome (read_conf (conf0 ok_action)
        (from_string (''.bram_init 5'' @ nl @ ''0a'' @ nl @ ''1b'' @ nl @ ''2c''))) =
      (1, [], [(On_bram 5, 1), (On_data 5 0 0x0a, 1), (On_data 5 1 0x1b, 1),
               (On_data 5 2 0x2c, 1), (On_commit, 1)], [])"
    by code_simp
  have r5: "data_positions (calls (fst (snd (read_bram (conf0 ok_action)
          (from_string ('' 7'' @ nl @ ''0a'' @ nl @ ''1b'')))))) = [0, 1]"
    by code_simp
  have e: "data_positions [] = []" by (simp add: data_positions_def)
  from r1 r2 r3 r4 r5 show ?thesis by (simp only: append_Nil e simp_thms)
qed

subsection \<open>The error buffer\<close>

lemma tracks_start: "tracks P b 1 b"
  by (simp add: tracks_def)

lemma tracks_call:
  assumes "tracks P b ok cf" and "ok \<noteq> 0"
  shows "tracks P b (fst (call cf ev)) (snd (call cf ev))"
proof -
  from assms obtain evs where e: "calls cf = calls b @ evs" "error cf = error b"
    "error_size cf = error_size b" "list_all (\<lambda>e. snd e \<noteq> 0) evs"
    unfolding tracks_def by auto
  have c: "calls (snd (call cf ev)) = calls b @ (evs @ [(ev, fst (call cf ev))])"
    "error (snd (call cf ev)) = error b" "error_size (snd (call cf ev)) = error_size b"
    using e by (simp_all add: call_def case_prod_unfold)
  show ?thesis
  proof (cases "fst (call cf ev) = 0")
    case True
    have "(evs @ [(ev, fst (call cf ev))]) \<noteq> []
        \<and> snd (last (evs @ [(ev, fst (call cf ev))])) = 0"
      using True by simp
    with c True show ?thesis unfolding tracks_def by (metis (full_types))
  next
    case False
    with e(4) have "list_all (\<lambda>e. snd e \<noteq> 0) (evs @ [(ev, fst (call cf ev))])"
      by simp
    with c False show ?thesis unfolding tracks_def by (metis (full_types))
  qed
qed

lemma tracks_error:
  assumes "tracks P b ok cf" and "ok \<noteq> 0" and "P m" and "0 < error_size b"
  shows "tracks P b (fst (conf_error cf m)) (snd (conf_error cf m))"
proof -
  from assms obtain evs where e: "calls cf = calls b @ evs" "error_size cf = error_size b"
    "list_all (\<lambda>e. snd e \<noteq> 0) evs"
    unfolding tracks_def by auto
  have "fst (conf_error cf m) = 0" "calls (snd (conf_error cf m)) = calls b @ evs"
    "error_size (snd (conf_error cf m)) = error_size b"
    "error (snd (conf_error cf m)) = take (error_size b - 1) m"
    using e assms(4) by (simp_all add: conf_error_def)
  with assms(3) e(3) show ?thesis unfolding tracks_def by auto
qed

lemma parser_message_fixed: "m \<in> set fixed_messages \<Longrightarrow> parser_message m"
  by (simp add: parser_message_def)

lemma tracks_at_call:
  "tracks P b ok cf \<Longrightarrow> ok \<noteq> 0 \<Longrightarrow>
     tracks P b (fst (at (call cf ev) inp)) (fst (snd (at (call cf ev) inp)))"
  by (simp add: at_def tracks_call)

lemma tracks_at_error:
  "tracks P b ok cf \<Longrightarrow> ok \<noteq> 0 \<Longrightarrow> P m \<Longrightarrow> 0 < error_size b \<Longrightarrow>
     tracks P b (fst (at (conf_error cf m) inp)) (fst (snd (at (conf_error cf m) inp)))"
  by (simp add: at_def tracks_error)

lemma tracks_leaf:
  assumes "tracks parser_message b ok cf" and "ok \<noteq> 0" and "0 < error_size b"
  shows "tracks parser_message b (fst (read_device cf inp)) (fst (snd (read_device cf inp)))"
    and "tracks parser_message b (fst (read_comment cf inp)) (fst (snd (read_comment cf inp)))"
    and "tracks parser_message b (fst (read_sysconfig cf inp)) (fst (snd (read_sysconfig cf inp)))"
    and "tracks parser_message b (fst (read_arc cf inp)) (fst (snd (read_arc cf inp)))"
    and "tracks parser_message b (fst (read_word cf inp)) (fst (snd (read_word cf inp)))"
    and "tracks parser_message b (fst (read_enum cf inp)) (fst (snd (read_enum cf inp)))"
    and "tracks parser_message b (fst (read_unknown cf inp)) (fst (snd (read_unknown cf inp)))"
  using assms
  by (auto simp: read_device_def read_comment_def read_sysconfig_def read_arc_def read_word_def
      read_enum_def read_unknown_def fixed_messages_def
      intro!: tracks_at_call tracks_at_error parser_message_fixed
      split: prod.splits option.splits)

lemma tracks_commit:
  "tracks P b ok cf \<Longrightarrow> tracks P b (fst (commit ok cf inp)) (fst (snd (commit ok cf inp)))"
  by (cases "ok = 0") (simp_all add: commit_def tracks_at_call)

lemma tracks_tile_record:
  assumes "tracks parser_message b ok cf" and "ok \<noteq> 0" and "0 < error_size b"
  shows "tracks parser_message b (fst (tile_record type cf inp))
           (fst (snd (tile_record type cf inp)))"
proof -
  have "parser_message (''unknown tile record type '' @ quoted type)"
    by (auto simp: parser_message_def)
  then show ?thesis
    using assms by (simp add: tile_record_def tracks_leaf tracks_at_error)
qed

lemma tracks_read_tile_conf_while:
  assumes "tracks parser_message b ok cf" and "0 < error_size b"
  shows "tracks parser_message b (fst (read_tile_conf_while ok cf inp))
           (fst (snd (read_tile_conf_while ok cf inp)))"
  using assms
proof (induction ok cf inp rule: read_tile_conf_while.induct)
  case (1 ok cf inp)
  obtain nr inp1 where nr: "next_record inp = (nr, inp1)" by (cases "next_record inp")
  obtain x inp2 where x: "fscanf_s15 inp1 = (x, inp2)" by (cases "fscanf_s15 inp1")
  show ?case
  proof (cases "ok \<noteq> 0 \<and> nr \<noteq> 0 \<and> x \<noteq> None")
    case False
    then show ?thesis using nr x "1.prems"(1)
      by (subst (1 2) read_tile_conf_while.simps) (auto simp: tracks_commit)
  next
    case True
    then obtain type where t: "x = Some type" by auto
    obtain ok' cf' inp3 where r: "tile_record type cf inp2 = (ok', cf', inp3)"
      by (cases "tile_record type cf inp2")
    have "tracks parser_message b ok' cf'"
      using tracks_tile_record [OF "1.prems"(1) _ "1.prems"(2), of type inp2] True r by simp
    then have "tracks parser_message b (fst (read_tile_conf_while ok' cf' inp3))
           (fst (snd (read_tile_conf_while ok' cf' inp3)))"
      using True "1.IH" [OF _ nr [symmetric] _ x [symmetric] t r [symmetric] refl] "1.prems"(2)
      by simp
    moreover have "read_tile_conf_while ok cf inp = read_tile_conf_while ok' cf' inp3"
      using True nr x t r by (subst read_tile_conf_while.simps) simp
    ultimately show ?thesis by simp
  qed
qed

lemma tracks_read_tile_conf:
  assumes "tracks parser_message b ok cf" and "ok \<noteq> 0" and "0 < error_size b"
  shows "tracks parser_message b (fst (read_tile_conf cf inp)) (fst (snd (read_tile_conf cf inp)))"
proof -
  from assms(1,2) have "tracks parser_message b 1 cf" by (simp add: tracks_def)
  then show ?thesis
    unfolding read_tile_conf_def using assms(3) by (rule tracks_read_tile_conf_while)
qed

lemma tracks_read_tile:
  assumes "tracks parser_message b ok cf" and "ok \<noteq> 0" and "0 < error_size b"
  shows "tracks parser_message b (fst (read_tile cf inp)) (fst (snd (read_tile cf inp)))"
proof -
  obtain x inp1 where x: "fscanf_blank_s inp = (x, inp1)" by (cases "fscanf_blank_s inp")
  show ?thesis
  proof (cases x)
    case None
    have "parser_message ''tile name required''"
      by (simp add: parser_message_def fixed_messages_def)
    with x None assms show ?thesis by (simp add: read_tile_def tracks_at_error)
  next
    case (Some name)
    obtain ok1 cf1 where c: "call cf (On_tile (cstr name)) = (ok1, cf1)"
      by (cases "call cf (On_tile (cstr name))")
    have t: "tracks parser_message b ok1 cf1"
      using tracks_call [OF assms(1,2), of "On_tile (cstr name)"] c by simp
    show ?thesis
    proof (cases "ok1 = 0")
      case True
      with x Some c t show ?thesis by (simp add: read_tile_def)
    next
      case False
      with x Some c tracks_read_tile_conf [OF t False assms(3), of inp1]
      show ?thesis by (simp add: read_tile_def)
    qed
  qed
qed

lemma tracks_read_tile_group_while:
  assumes "tracks parser_message b ok cf" and "0 < error_size b"
  shows "tracks parser_message b (fst (read_tile_group_while ok cf inp))
           (fst (snd (read_tile_group_while ok cf inp)))"
  using assms
proof (induction ok cf inp rule: read_tile_group_while.induct)
  case (1 ok cf inp)
  obtain x inp1 where x: "fscanf_blank_s inp = (x, inp1)" by (cases "fscanf_blank_s inp")
  show ?case
  proof (cases "ok = 0")
    case True
    with "1.prems"(1) show ?thesis
      by (subst (1 2) read_tile_group_while.simps) simp
  next
    case False
    show ?thesis
    proof (cases x)
      case None
      have "read_tile_group_while ok cf inp = read_tile_conf cf inp1"
        using False x None by (subst read_tile_group_while.simps) simp
      with tracks_read_tile_conf [OF "1.prems"(1) False "1.prems"(2), of inp1]
      show ?thesis by simp
    next
      case (Some name)
      obtain ok' cf' where r: "call cf (On_tile (cstr name)) = (ok', cf')"
        by (cases "call cf (On_tile (cstr name))")
      have "tracks parser_message b ok' cf'"
        using tracks_call [OF "1.prems"(1) False, of "On_tile (cstr name)"] r by simp
      then have "tracks parser_message b (fst (read_tile_group_while ok' cf' inp1))
           (fst (snd (read_tile_group_while ok' cf' inp1)))"
        using "1.IH" [OF False x [symmetric] Some r [symmetric]] "1.prems"(2) by simp
      moreover have "read_tile_group_while ok cf inp = read_tile_group_while ok' cf' inp1"
        using False x Some r by (subst read_tile_group_while.simps) simp
      ultimately show ?thesis by simp
    qed
  qed
qed

lemma tracks_read_tile_group:
  assumes "tracks parser_message b ok cf" and "ok \<noteq> 0" and "0 < error_size b"
  shows "tracks parser_message b (fst (read_tile_group cf inp))
           (fst (snd (read_tile_group cf inp)))"
proof -
  obtain x inp1 where x: "fscanf_blank_s inp = (x, inp1)" by (cases "fscanf_blank_s inp")
  show ?thesis
  proof (cases x)
    case None
    have "parser_message ''tile name required''"
      by (simp add: parser_message_def fixed_messages_def)
    with x None assms show ?thesis by (simp add: read_tile_group_def tracks_at_error)
  next
    case (Some name)
    obtain ok1 cf1 where c: "call cf (On_tile (cstr name)) = (ok1, cf1)"
      by (cases "call cf (On_tile (cstr name))")
    have t: "tracks parser_message b ok1 cf1"
      using tracks_call [OF assms(1,2), of "On_tile (cstr name)"] c by simp
    with x Some c tracks_read_tile_group_while [OF t assms(3), of inp1]
    show ?thesis by (simp add: read_tile_group_def)
  qed
qed

lemma tracks_read_bram_for:
  assumes "tracks parser_message b ok cf" and "0 < error_size b"
  shows "tracks parser_message b (fst (read_bram_for index i ok cf inp))
           (fst (snd (read_bram_for index i ok cf inp)))"
  using assms
proof (induction index i ok cf inp rule: read_bram_for.induct)
  case (1 index i ok cf inp)
  obtain nr inp1 where nr: "next_record inp = (nr, inp1)" by (cases "next_record inp")
  obtain x inp2 where x: "fscanf_x inp1 = (x, inp2)" by (cases "fscanf_x inp1")
  have m: "parser_message ''hex bram value required''"
    by (simp add: parser_message_def fixed_messages_def)
  show ?case
  proof (cases "ok \<noteq> 0 \<and> nr \<noteq> 0 \<and> x \<noteq> None")
    case False
    then show ?thesis using nr x "1.prems" m
      by (subst (1 2) read_bram_for.simps) (auto simp: tracks_commit tracks_at_error)
  next
    case True
    then obtain v where t: "x = Some v" by auto
    obtain ok' cf' where r: "call cf (On_data index i v) = (ok', cf')"
      by (cases "call cf (On_data index i v)")
    have "tracks parser_message b ok' cf'"
      using tracks_call [OF "1.prems"(1), of "On_data index i v"] True r by simp
    then have "tracks parser_message b (fst (read_bram_for index (i + 1) ok' cf' inp2))
           (fst (snd (read_bram_for index (i + 1) ok' cf' inp2)))"
      using True "1.IH" [OF _ nr [symmetric] _ x [symmetric] t r [symmetric]] "1.prems"(2)
      by simp
    moreover have "read_bram_for index i ok cf inp = read_bram_for index (i + 1) ok' cf' inp2"
      using True nr x t r by (subst read_bram_for.simps) simp
    ultimately show ?thesis by simp
  qed
qed

lemma tracks_read_bram:
  assumes "tracks parser_message b ok cf" and "ok \<noteq> 0" and "0 < error_size b"
  shows "tracks parser_message b (fst (read_bram cf inp)) (fst (snd (read_bram cf inp)))"
proof -
  obtain x inp1 where x: "fscanf_blank_u inp = (x, inp1)" by (cases "fscanf_blank_u inp")
  show ?thesis
  proof (cases x)
    case None
    have "parser_message ''bram index required''"
      by (simp add: parser_message_def fixed_messages_def)
    with x None assms show ?thesis by (simp add: read_bram_def tracks_at_error)
  next
    case (Some index)
    obtain ok1 cf1 where c: "call cf (On_bram index) = (ok1, cf1)"
      by (cases "call cf (On_bram index)")
    have t: "tracks parser_message b ok1 cf1"
      using tracks_call [OF assms(1,2), of "On_bram index"] c by simp
    with x Some c tracks_read_bram_for [OF t assms(3), of index 0 inp1]
    show ?thesis by (simp add: read_bram_def)
  qed
qed

lemma tracks_conf_entry:
  assumes "tracks parser_message b ok cf" and "ok \<noteq> 0" and "0 < error_size b"
  shows "tracks parser_message b (fst (conf_entry verb cf inp))
           (fst (snd (conf_entry verb cf inp)))"
proof -
  have "parser_message (''unknown verb '' @ quoted verb)"
    by (auto simp: parser_message_def)
  then show ?thesis
    using assms
    by (simp add: conf_entry_def tracks_leaf tracks_read_tile tracks_read_tile_group
        tracks_read_bram tracks_at_error)
qed

text \<open>Where the loop of \<^verbatim>\<open>read_conf\<close> is left, the state is as \<open>tracks\<close> says.\<close>

lemma read_conf_while_exit:
  assumes "tracks parser_message b ok cf" and "0 < error_size b"
  shows "\<exists>ok' cf' inp'. read_conf_while ok cf inp = read_conf_end ok' cf' inp'
           \<and> tracks parser_message b ok' cf'"
  using assms
proof (induction ok cf inp rule: read_conf_while.induct)
  case (1 ok cf inp)
  obtain ne inp1 where ne: "next_entry inp = (ne, inp1)" by (cases "next_entry inp")
  obtain x inp2 where x: "fscanf_s15 inp1 = (x, inp2)" by (cases "fscanf_s15 inp1")
  show ?case
  proof (cases "ok \<noteq> 0 \<and> ne \<noteq> 0 \<and> x \<noteq> None")
    case False
    then have "\<exists>inp'. read_conf_while ok cf inp = read_conf_end ok cf inp'"
      using ne x by (subst read_conf_while.simps) auto
    with "1.prems"(1) show ?thesis by blast
  next
    case True
    then obtain verb where t: "x = Some verb" by auto
    obtain ok' cf' inp3 where r: "conf_entry verb cf inp2 = (ok', cf', inp3)"
      by (cases "conf_entry verb cf inp2")
    have "tracks parser_message b ok' cf'"
      using tracks_conf_entry [OF "1.prems"(1) _ "1.prems"(2), of verb inp2] True r by simp
    then have "\<exists>ok'' cf'' inp'. read_conf_while ok' cf' inp3 = read_conf_end ok'' cf'' inp'
           \<and> tracks parser_message b ok'' cf''"
      using True "1.IH" [OF _ ne [symmetric] _ x [symmetric] t r [symmetric] refl] "1.prems"(2)
      by simp
    moreover have "read_conf_while ok cf inp = read_conf_while ok' cf' inp3"
      using True ne x t r by (subst read_conf_while.simps) simp
    ultimately show ?thesis by simp
  qed
qed

text \<open>
  C2, as the specification states it, fails. With an \<^verbatim>\<open>on_device\<close> that returns 0,
  \<^verbatim>\<open>read_conf\<close> on \<^verbatim>\<open>.device x\<close> returns 0 after that one call, and the error buffer is as
  it was before: still empty when it was empty, still the old text when it held one.
\<close>

theorem error_buffer_iff_failure_counterexample:
  "fst (read_conf (conf0 veto_action) (from_string ''.device x'')) = 0
   \<and> calls (fst (snd (read_conf (conf0 veto_action) (from_string ''.device x''))))
       = [(On_device ''x'', 0)]
   \<and> error (fst (snd (read_conf (conf0 veto_action) (from_string ''.device x'')))) = []
   \<and> error (fst (snd (read_conf ((conf0 veto_action)\<lparr>error := ''old text''\<rparr>)
        (from_string ''.device x'')))) = ''old text''"
  by code_simp

text \<open>
  C2, amended. After \<^verbatim>\<open>read_conf\<close> returns (with an error buffer of at least one byte): if
  it returned success, the buffer is as it was before the call. If it returned failure,
  then either the buffer holds a message of the parser (one of the readers' messages,
  \<^verbatim>\<open>unknown verb '...'\<close>, \<^verbatim>\<open>unknown tile record type '...'\<close>, or \<^verbatim>\<open>strerror (errno)\<close>), cut to
  the size of the buffer, or the last callback called returned failure and the buffer is
  as it was before the call. And whenever the last callback called returned failure and
  the stream has no read error, \<^verbatim>\<open>read_conf\<close> has returned failure and the buffer is as it
  was before the call: the failure of a callback alone does not write the buffer.
\<close>

theorem error_buffer_after_read_conf:
  assumes "0 < error_size cf"
  shows "(fst (read_conf cf inp) \<noteq> 0 \<longrightarrow> error (fst (snd (read_conf cf inp))) = error cf)
       \<and> (fst (read_conf cf inp) = 0 \<longrightarrow>
            (\<exists>m. (parser_message m \<or> m = errdesc (snd (snd (read_conf cf inp))))
                \<and> error (fst (snd (read_conf cf inp))) = take (error_size cf - 1) m)
            \<or> (error (fst (snd (read_conf cf inp))) = error cf
                \<and> (\<exists>evs. evs \<noteq> [] \<and> calls (fst (snd (read_conf cf inp))) = calls cf @ evs
                      \<and> snd (last evs) = 0)))
       \<and> (\<not> ferr (snd (snd (read_conf cf inp)))
            \<and> (\<exists>evs. evs \<noteq> [] \<and> calls (fst (snd (read_conf cf inp))) = calls cf @ evs
                  \<and> snd (last evs) = 0)
          \<longrightarrow> fst (read_conf cf inp) = 0
              \<and> error (fst (snd (read_conf cf inp))) = error cf)"
proof -
  obtain ok' cf' inp' where r: "read_conf cf inp = read_conf_end ok' cf' inp'"
    and t: "tracks parser_message cf ok' cf'"
    unfolding read_conf_def using read_conf_while_exit [OF tracks_start assms, of inp] by blast
  from t obtain evs where e: "error_size cf' = error_size cf" "calls cf' = calls cf @ evs"
    and nz: "ok' \<noteq> 0 \<Longrightarrow> error cf' = error cf \<and> list_all (\<lambda>e. snd e \<noteq> 0) evs"
    and z: "ok' = 0 \<Longrightarrow> (error cf' = error cf \<and> evs \<noteq> [] \<and> snd (last evs) = 0)
               \<or> (list_all (\<lambda>e. snd e \<noteq> 0) evs
                  \<and> (\<exists>m. parser_message m \<and> error cf' = take (error_size cf - 1) m))"
    unfolding tracks_def by (cases "ok' = 0") auto
  show ?thesis
  proof (cases "ferr inp'")
    case True
    then have rr: "read_conf cf inp =
        (0, cf'\<lparr>error := take (error_size cf - 1) (errdesc inp')\<rparr>, inp')"
      using r e(1) assms by (simp add: read_conf_end_def conf_error_def at_def)
    have "\<exists>m. (parser_message m \<or> m = errdesc inp')
        \<and> take (error_size cf - 1) (errdesc inp') = take (error_size cf - 1) m"
      by blast
    with True show ?thesis by (simp add: rr)
  next
    case False
    then have rr: "read_conf cf inp = (ok', cf', inp')"
      using r by (simp add: read_conf_end_def)
    have veto: "ok' = 0 \<and> error cf' = error cf"
      if a: "evs' \<noteq> []" "calls cf' = calls cf @ evs'" "snd (last evs') = 0" for evs'
    proof -
      from a(2) e(2) have "evs' = evs" by simp
      with a(1,3) have "\<not> list_all (\<lambda>e. snd e \<noteq> 0) evs"
        using last_in_set [of evs] by (auto simp: list_all_iff)
      with nz z show ?thesis by (cases "ok' = 0") auto
    qed
    have c1: "ok' \<noteq> 0 \<longrightarrow> error cf' = error cf" using nz by blast
    have c2: "ok' = 0 \<longrightarrow>
            (\<exists>m. (parser_message m \<or> m = errdesc inp')
                \<and> error cf' = take (error_size cf - 1) m)
            \<or> (error cf' = error cf
                \<and> (\<exists>evs. evs \<noteq> [] \<and> calls cf' = calls cf @ evs \<and> snd (last evs) = 0))"
      using z e(2) by blast
    have c3: "\<not> ferr inp'
            \<and> (\<exists>evs. evs \<noteq> [] \<and> calls cf' = calls cf @ evs \<and> snd (last evs) = 0)
          \<longrightarrow> ok' = 0 \<and> error cf' = error cf"
      using veto by blast
    from c1 c2 c3 show ?thesis by (simp only: rr fst_conv snd_conv)
  qed
qed

text \<open>A parse that succeeds, over an old text in the buffer; a parse that fails for a missing
  name; and one that fails because \<^verbatim>\<open>on_device\<close> refuses, which leaves the buffer as it
  was.\<close>

theorem error_buffer_after_read_conf_witness:
  "error (fst (snd (read_conf ((conf0 ok_action)\<lparr>error := ''old text''\<rparr>)
      (from_string ''.device x'')))) = error ((conf0 ok_action)\<lparr>error := ''old text''\<rparr>)
   \<and> ((\<exists>m. (parser_message m
             \<or> m = errdesc (snd (snd (read_conf (conf0 ok_action) (from_string ''.device'')))))
          \<and> error (fst (snd (read_conf (conf0 ok_action) (from_string ''.device''))))
              = take (error_size (conf0 ok_action) - 1) m)
        \<or> (error (fst (snd (read_conf (conf0 ok_action) (from_string ''.device''))))
              = error (conf0 ok_action)
            \<and> (\<exists>evs. evs \<noteq> []
                  \<and> calls (fst (snd (read_conf (conf0 ok_action) (from_string ''.device''))))
                      = calls (conf0 ok_action) @ evs
                  \<and> snd (last evs) = 0)))
   \<and> fst (read_conf (conf0 veto_action) (from_string ''.device x'')) = 0
   \<and> error (fst (snd (read_conf (conf0 veto_action) (from_string ''.device x''))))
       = error (conf0 veto_action)
   \<and> outcome (read_conf (conf0 ok_action) (from_string ''.device'')) =
       (0, ''device name required'', [], [])"
proof -
  have s1: "0 < error_size ((conf0 ok_action)\<lparr>error := ''old text''\<rparr>)"
    and s2: "0 < error_size (conf0 ok_action)" and s3: "0 < error_size (conf0 veto_action)"
    by (simp_all add: conf0_def)
  have h1: "fst (read_conf ((conf0 ok_action)\<lparr>error := ''old text''\<rparr>)
      (from_string ''.device x'')) \<noteq> 0" by code_simp
  have h2: "fst (read_conf (conf0 ok_action) (from_string ''.device'')) = 0" by code_simp
  have h3: "\<not> ferr (snd (snd (read_conf (conf0 veto_action) (from_string ''.device x''))))"
    by code_simp
  have h4: "calls (fst (snd (read_conf (conf0 veto_action) (from_string ''.device x''))))
      = calls (conf0 veto_action) @ [(On_device ''x'', 0)]" by code_simp
  have r4: "outcome (read_conf (conf0 ok_action) (from_string ''.device'')) =
       (0, ''device name required'', [], [])" by code_simp
  from error_buffer_after_read_conf [OF s1, of "from_string ''.device x''"] h1
  have r1: "error (fst (snd (read_conf ((conf0 ok_action)\<lparr>error := ''old text''\<rparr>)
      (from_string ''.device x'')))) = error ((conf0 ok_action)\<lparr>error := ''old text''\<rparr>)"
    by blast
  from error_buffer_after_read_conf [OF s2, of "from_string ''.device''"] h2
  have r2: "(\<exists>m. (parser_message m
             \<or> m = errdesc (snd (snd (read_conf (conf0 ok_action) (from_string ''.device'')))))
          \<and> error (fst (snd (read_conf (conf0 ok_action) (from_string ''.device''))))
              = take (error_size (conf0 ok_action) - 1) m)
        \<or> (error (fst (snd (read_conf (conf0 ok_action) (from_string ''.device''))))
              = error (conf0 ok_action)
            \<and> (\<exists>evs. evs \<noteq> []
                  \<and> calls (fst (snd (read_conf (conf0 ok_action) (from_string ''.device''))))
                      = calls (conf0 ok_action) @ evs
                  \<and> snd (last evs) = 0))"
    by blast
  have "\<exists>evs. evs \<noteq> []
      \<and> calls (fst (snd (read_conf (conf0 veto_action) (from_string ''.device x''))))
          = calls (conf0 veto_action) @ evs
      \<and> snd (last evs) = 0"
    using h4 by (intro exI [of _ "[(On_device ''x'', 0)]"]) simp
  with error_buffer_after_read_conf [OF s3, of "from_string ''.device x''"] h3
  have r3: "fst (read_conf (conf0 veto_action) (from_string ''.device x'')) = 0
   \<and> error (fst (snd (read_conf (conf0 veto_action) (from_string ''.device x''))))
       = error (conf0 veto_action)"
    by blast
  from r1 r2 r3 r4 show ?thesis by (intro conjI) blast+
qed

subsection \<open>The bitmap exporter\<close>

lemma sample_msb_bytes:
  "list_all (\<lambda>n. sample_msb (of_nat n) = reverse_bits (of_nat n)) [0..<256]"
  by code_simp

text \<open>The multiplication reverses the bits of every byte.\<close>

lemma sample_msb_reverse_bits: "sample_msb b = reverse_bits b"
proof -
  have "unat b < 2 ^ LENGTH(8)" by (rule unsigned_less)
  then have "unat b \<in> set [0..<256]" by simp
  with sample_msb_bytes
  have "sample_msb (of_nat (unat b)) = reverse_bits (of_nat (unat b))"
    unfolding list_all_iff by blast
  then show ?thesis by simp
qed

lemma length_bitmap_rows: "length (bitmap_rows bm) = unat (height bm) * unat (width bm)"
  by (simp add: bitmap_rows_def length_concat comp_def sum_list_triv)

text \<open>
  C1. The exporter does not write one byte for 8 pixels: its inner loop runs over the
  pixels, \<^verbatim>\<open>x = 0, 1, ..., width - 1\<close>, and writes a byte at each, the byte of index
  \<^verbatim>\<open>x >> 3\<close> of the row, so a row is \<open>width\<close> bytes and each byte of the planes is written
  eight times. For the bitmap of one row of eight pixels it writes the header and then
  eight bytes where the format has one. (Each byte is the reversed \<^verbatim>\<open>bits & mask\<close>, by
  \<open>sample_msb_reverse_bits\<close>.)
\<close>

theorem bitmap_export_byte_per_pixel:
  "length (bitmap_rows bm) = unat (height bm) * unat (width bm)
   \<and> bitmap_export example_bitmap True True True =
       Returns 1 (Some (map of_char (''P4'' @ nl @ ''8 1'' @ nl)
                 @ [0x80, 0x80, 0x80, 0x80, 0x80, 0x80, 0x80, 0x80]))"
proof -
  have "bitmap_export example_bitmap True True True =
       Returns 1 (Some (map of_char (''P4'' @ nl @ ''8 1'' @ nl)
                 @ [0x80, 0x80, 0x80, 0x80, 0x80, 0x80, 0x80, 0x80]))"
    by code_simp
  with length_bitmap_rows [of bm] show ?thesis by (rule conjI)
qed

end
